theory Spec2Isabelle
  imports Complex_Main "HOL-Library.AList" "HOL-Library.Sublist"
begin

text \<open>
  The Chess960 position analyzer: a worker drives a UCI engine through its standard
  streams, parses the info lines of a search, keeps the deepest line of each variant
  rank, and stores one result per position; \<^verbatim>\<open>main\<close> fills the queue with the positions
  that have no result yet and saves the results to a JSON file. The definitions follow
  \<^verbatim>\<open>scripts/analyze_positions.py\<close>; line numbers refer to that file.
\<close>

section \<open>Python string primitives used by the analyzer\<close>

text \<open>
  Strings are lists of characters whose code points lie in 0..255. On that range Python's
  \<^verbatim>\<open>str.isspace\<close> holds for the code points 9..13, 28..32, 0x85 and 0xA0, and these are
  the characters that \<^verbatim>\<open>str.split()\<close> and \<^verbatim>\<open>str.strip()\<close> treat as white space.
\<close>

definition is_space :: "char \<Rightarrow> bool" where
  "is_space c = (c \<in> set [CHR 0x09, CHR 0x0A, CHR 0x0B, CHR 0x0C, CHR 0x0D,
                           CHR 0x1C, CHR 0x1D, CHR 0x1E, CHR 0x1F, CHR 0x20,
                           CHR 0x85, CHR 0xA0])"

text \<open>\<^verbatim>\<open>s.strip()\<close>: white space removed at both ends.\<close>

definition strip :: "string \<Rightarrow> string" where
  "strip s = rev (dropWhile is_space (rev (dropWhile is_space s)))"

text \<open>\<^verbatim>\<open>s.startswith(p)\<close>.\<close>

definition startswith :: "string \<Rightarrow> string \<Rightarrow> bool" where
  "startswith s p = (take (length p) s = p)"

text \<open>\<^verbatim>\<open>sub in s\<close> on strings: \<open>sub\<close> occurs in \<open>s\<close> as a contiguous block.\<close>

fun py_in :: "string \<Rightarrow> string \<Rightarrow> bool" where
  "py_in sub [] = (sub = [])"
| "py_in sub (c # cs) = (startswith (c # cs) sub \<or> py_in sub cs)"

text \<open>\<^verbatim>\<open>s.find(sub)\<close>: the least index at which \<open>sub\<close> occurs, or \<open>-1\<close>.\<close>

fun find_from :: "int \<Rightarrow> string \<Rightarrow> string \<Rightarrow> int" where
  "find_from i sub [] = (if sub = [] then i else -1)"
| "find_from i sub (c # cs) = (if startswith (c # cs) sub then i else find_from (i + 1) sub cs)"

definition py_find :: "string \<Rightarrow> string \<Rightarrow> int" where
  "py_find s sub = find_from 0 sub s"

text \<open>
  \<^verbatim>\<open>s.split()\<close>: the maximal blocks of characters that are not white space, in order.
  \<open>split_ws cur s\<close> carries the block being read in \<open>cur\<close>.
\<close>

fun split_ws :: "string \<Rightarrow> string \<Rightarrow> string list" where
  "split_ws cur [] = (if cur = [] then [] else [cur])"
| "split_ws cur (c # cs) =
     (if is_space c then (if cur = [] then split_ws [] cs else cur # split_ws [] cs)
      else split_ws (cur @ [c]) cs)"

definition py_split :: "string \<Rightarrow> string list" where
  "py_split s = split_ws [] s"

text \<open>\<^verbatim>\<open>parts.index(key)\<close>: the first position of \<open>key\<close>; \<open>None\<close> stands for ValueError.\<close>

fun py_index :: "string list \<Rightarrow> string \<Rightarrow> nat option" where
  "py_index [] key = None"
| "py_index (p # ps) key = (if p = key then Some 0 else map_option Suc (py_index ps key))"

text \<open>
  \<^verbatim>\<open>int(s)\<close> in base ten: white space stripped, an optional sign, then decimal digits in
  which single underscores may separate digits. \<open>None\<close> stands for ValueError. (CPython's
  limit on the number of digits, 4300 by default, is not modelled.) The white space that
  \<^verbatim>\<open>int\<close> strips is narrower than that of \<^verbatim>\<open>str.strip()\<close>: the code points 28..31 are
  not part of it, so \<^verbatim>\<open>int("\x1c5")\<close> raises ValueError.
\<close>

definition is_int_space :: "char \<Rightarrow> bool" where
  "is_int_space c = (c \<in> set [CHR 0x09, CHR 0x0A, CHR 0x0B, CHR 0x0C, CHR 0x0D, CHR 0x20,
                               CHR 0x85, CHR 0xA0])"

definition int_strip :: "string \<Rightarrow> string" where
  "int_strip s = rev (dropWhile is_int_space (rev (dropWhile is_int_space s)))"

definition digit_val :: "char \<Rightarrow> nat option" where
  "digit_val c = map_of (zip ''0123456789'' [0..<10]) c"

fun parse_digits :: "nat \<Rightarrow> bool \<Rightarrow> string \<Rightarrow> nat option" where
  "parse_digits acc after_us [] = (if after_us then None else Some acc)"
| "parse_digits acc after_us (c # cs) =
     (if c = CHR ''_'' then (if after_us then None else parse_digits acc True cs)
      else (case digit_val c of
              None \<Rightarrow> None
            | Some d \<Rightarrow> parse_digits (acc * 10 + d) False cs))"

definition parse_unsigned :: "string \<Rightarrow> nat option" where
  "parse_unsigned s =
     (case s of
        [] \<Rightarrow> None
      | c # cs \<Rightarrow> (case digit_val c of None \<Rightarrow> None | Some d \<Rightarrow> parse_digits d False cs))"

definition int_of_str :: "string \<Rightarrow> int option" where
  "int_of_str s =
     (case int_strip s of
        [] \<Rightarrow> None
      | c # cs \<Rightarrow>
          (if c = CHR ''-'' then map_option (\<lambda>n. - int n) (parse_unsigned cs)
           else if c = CHR ''+'' then map_option int (parse_unsigned cs)
           else map_option int (parse_unsigned (c # cs))))"

text \<open>
  \<^verbatim>\<open>int(x)\<close> where \<open>x\<close> is what \<^verbatim>\<open>_extract\<close> returned: \<^verbatim>\<open>int(None)\<close> raises TypeError.
\<close>

definition py_int :: "string option \<Rightarrow> int option" where
  "py_int x = (case x of None \<Rightarrow> None | Some s \<Rightarrow> int_of_str s)"

text \<open>\<^verbatim>\<open>str(n)\<close> for an integer.\<close>

fun nat_digits :: "nat \<Rightarrow> string" where
  "nat_digits n =
     (if n < 10 then [''0123456789'' ! n]
      else nat_digits (n div 10) @ [''0123456789'' ! (n mod 10)])"

definition str_of_int :: "int \<Rightarrow> string" where
  "str_of_int i = (if i < 0 then CHR ''-'' # nat_digits (nat (- i)) else nat_digits (nat i))"

section \<open>Configuration\<close>

definition SEARCH_TIME_MS :: int where "SEARCH_TIME_MS = 20000"
definition THREADS_PER_ENGINE :: int where "THREADS_PER_ENGINE = 4"
definition NUM_WORKERS :: int where "NUM_WORKERS = 2"
definition MULTI_PV :: int where "MULTI_PV = 3"

section \<open>Parsing one info line\<close>

text \<open>
  The dictionary built by \<^verbatim>\<open>_parse_info\<close>. The key \<^verbatim>\<open>"mate"\<close> is present only for a mate
  score, so \<open>p_mate\<close> is optional. \<^verbatim>\<open>eval\<close> is a Python number: the integer 9999 or -9999,
  or the float \<^verbatim>\<open>score_val / 100\<close>; the model keeps the exact quotient as a rational.
\<close>

record parsed =
  p_depth :: int
  p_pv_num :: int
  p_moves :: string
  p_eval :: rat
  p_mate :: "int option"

text \<open>
  \<^verbatim>\<open>_extract(line, key)\<close>, named \<open>extract_key\<close> here because \<open>extract\<close> is a reserved
  word: the token after the first token equal to \<open>key\<close>. ValueError from \<^verbatim>\<open>index\<close> and IndexError from \<^verbatim>\<open>parts[idx + 1]\<close> are caught and give \<open>None\<close>.
\<close>

definition extract_key :: "string \<Rightarrow> string \<Rightarrow> string option" where
  "extract_key line key =
     (let parts = py_split line in
      case py_index parts key of
        None \<Rightarrow> None
      | Some idx \<Rightarrow> (if idx + 1 < length parts then Some (parts ! (idx + 1)) else None))"

text \<open>\<^verbatim>\<open>x or "1"\<close>: the default replaces \<open>None\<close> and the empty string.\<close>

definition or_default :: "string option \<Rightarrow> string \<Rightarrow> string" where
  "or_default x d = (case x of None \<Rightarrow> d | Some s \<Rightarrow> (if s = [] then d else s))"

text \<open>The part of \<^verbatim>\<open>_parse_info\<close> after the score has been read (lines 112 to 127).\<close>

datatype score_type = Cp | Mate

definition build_result :: "string \<Rightarrow> int \<Rightarrow> int \<Rightarrow> score_type \<Rightarrow> int \<Rightarrow> parsed" where
  "build_result line depth pv_num score_type score_val =
     (let pv_start = py_find line '' pv '' + 4;
          moves = strip (drop (nat pv_start) line)
      in (case score_type of
            Mate \<Rightarrow> \<lparr>p_depth = depth, p_pv_num = pv_num, p_moves = moves,
                      p_eval = (if score_val > 0 then 9999 else - 9999),
                      p_mate = Some score_val\<rparr>
          | Cp \<Rightarrow> \<lparr>p_depth = depth, p_pv_num = pv_num, p_moves = moves,
                    p_eval = of_int score_val / 100,
                    p_mate = None\<rparr>))"

text \<open>
  \<^verbatim>\<open>_parse_info(line)\<close>. Every exception raised in the body is caught by the bare
  \<^verbatim>\<open>except\<close> and turned into \<open>None\<close>, the value also returned for a line with no score.
\<close>

definition parse_info :: "string \<Rightarrow> parsed option" where
  "parse_info line =
     (case py_int (extract_key line ''depth'') of
        None \<Rightarrow> None
      | Some depth \<Rightarrow>
          (case py_int (Some (or_default (extract_key line ''multipv'') ''1'')) of
             None \<Rightarrow> None
           | Some pv_num \<Rightarrow>
               (if py_in '' score cp '' line then
                  (case py_int (extract_key line ''score cp'') of
                     None \<Rightarrow> None
                   | Some score_val \<Rightarrow> Some (build_result line depth pv_num Cp score_val))
                else if py_in '' score mate '' line then
                  (case py_int (extract_key line ''score mate'') of
                     None \<Rightarrow> None
                   | Some score_val \<Rightarrow> Some (build_result line depth pv_num Mate score_val))
                else None)))"

section \<open>The engine process\<close>

text \<open>
  The child process as the worker sees it. \<open>proc_out\<close> holds the lines the engine still
  writes to its standard output, in order; after the last one the stream is at end of
  input. \<open>proc_accepts\<close> says how the engine's standard input behaves: \<open>None\<close> if it stays
  open, \<open>Some n\<close> if \<open>n\<close> more writes succeed and the process is gone afterwards.
  \<open>proc_sent\<close> records what has been written to it.
\<close>

record proc =
  proc_out :: "string list"
  proc_accepts :: "nat option"
  proc_sent :: "string list"

text \<open>The only exception the session code can propagate: a write to a dead process.\<close>

datatype pyerror = BrokenPipeError

text \<open>
  The outcome of a call: \<open>None\<close> if the call never returns, \<open>Some (Inl e)\<close> if it raises
  \<open>e\<close>, \<open>Some (Inr x)\<close> if it returns \<open>x\<close>.
\<close>

type_synonym 'a outcome = "(pyerror + 'a) option"

definition then_do :: "'a outcome \<Rightarrow> ('a \<Rightarrow> 'b outcome) \<Rightarrow> 'b outcome" where
  "then_do m f = (case m of None \<Rightarrow> None | Some (Inl e) \<Rightarrow> Some (Inl e) | Some (Inr x) \<Rightarrow> f x)"

text \<open>\<^verbatim>\<open>_send(cmd)\<close>: write the command and a newline, then flush.\<close>

definition send :: "proc \<Rightarrow> string \<Rightarrow> pyerror + proc" where
  "send p cmd =
     (case proc_accepts p of
        None \<Rightarrow> Inr (p\<lparr>proc_sent := proc_sent p @ [cmd @ [CHR 0x0A]]\<rparr>)
      | Some 0 \<Rightarrow> Inl BrokenPipeError
      | Some (Suc n) \<Rightarrow>
          Inr (p\<lparr>proc_accepts := Some n, proc_sent := proc_sent p @ [cmd @ [CHR 0x0A]]\<rparr>))"

text \<open>
  \<^verbatim>\<open>stdout.readline()\<close>: the next line, or the empty string at end of input, where it
  can be called again and again.
\<close>

definition readline :: "string list \<Rightarrow> string \<times> string list" where
  "readline out = (case out of [] \<Rightarrow> ([], []) | l # ls \<Rightarrow> (l, ls))"

text \<open>
  \<^verbatim>\<open>_wait_for(target)\<close>: a \<^verbatim>\<open>while True\<close> loop whose only exit is a line equal to the
  target. It may run forever, so \<open>None\<close> is the value of a call that does not return.
\<close>

partial_function (option) wait_for :: "proc \<Rightarrow> string \<Rightarrow> proc option" where
  "wait_for p target =
     (case readline (proc_out p) of
        (raw, out') \<Rightarrow>
          (if strip raw = target then Some (p\<lparr>proc_out := out'\<rparr>)
           else wait_for (p\<lparr>proc_out := out'\<rparr>) target))"

definition await :: "proc \<Rightarrow> string \<Rightarrow> proc outcome" where
  "await p target = map_option Inr (wait_for p target)"

text \<open>
  \<^verbatim>\<open>start()\<close>, after \<^verbatim>\<open>Popen\<close> has created the process \<open>p\<close>: the handshake and the three
  options.
\<close>

definition start :: "proc \<Rightarrow> proc outcome" where
  "start p =
     then_do (Some (send p ''uci'')) (\<lambda>p.
     then_do (await p ''uciok'') (\<lambda>p.
     then_do (Some (send p ''setoption name UCI_Chess960 value true'')) (\<lambda>p.
     then_do (Some (send p (''setoption name Threads value '' @ str_of_int THREADS_PER_ENGINE))) (\<lambda>p.
     then_do (Some (send p (''setoption name MultiPV value '' @ str_of_int MULTI_PV))) (\<lambda>p.
     then_do (Some (send p ''isready'')) (\<lambda>p.
     await p ''readyok''))))))"

text \<open>\<^verbatim>\<open>quit()\<close>: the quit command; \<^verbatim>\<open>process.wait()\<close> is taken to return.\<close>

definition quit :: "proc \<Rightarrow> pyerror + proc" where
  "quit p = send p ''quit''"

section \<open>Analysing one position\<close>

text \<open>
  The state of the loop in \<^verbatim>\<open>analyze\<close>: the dictionary \<^verbatim>\<open>lines\<close> from variant rank to
  the retained parsed line, and \<^verbatim>\<open>final_depth\<close>.
\<close>

type_synonym retained = "(int \<rightharpoonup> parsed) \<times> int"

text \<open>Lines 77 to 81: what the loop does with a parsed line.\<close>

definition retain :: "retained \<Rightarrow> parsed \<Rightarrow> retained" where
  "retain st parsed =
     (let lines = fst st; final_depth = snd st; pv_num = p_pv_num parsed;
          lines' = (case lines pv_num of
                      None \<Rightarrow> lines(pv_num \<mapsto> parsed)
                    | Some old \<Rightarrow>
                        (if p_depth old < p_depth parsed then lines(pv_num \<mapsto> parsed)
                         else lines));
          final_depth' = (if p_depth parsed > final_depth then p_depth parsed
                          else final_depth)
      in (lines', final_depth'))"

text \<open>
  Lines 74 to 81: what the loop does with a line that is not the terminal line. The
  test \<^verbatim>\<open>if parsed\<close> holds for every dictionary \<^verbatim>\<open>_parse_info\<close> returns, since none is
  empty.
\<close>

definition analyze_step :: "retained \<Rightarrow> string \<Rightarrow> retained" where
  "analyze_step st line =
     (if py_in ''info depth'' line \<and> py_in '' pv '' line then
        (case parse_info line of None \<Rightarrow> st | Some parsed \<Rightarrow> retain st parsed)
      else st)"

text \<open>Lines 68 to 81: read until a line starts with \<^verbatim>\<open>bestmove\<close>.\<close>

partial_function (option) analyze_loop :: "proc \<Rightarrow> retained \<Rightarrow> (proc \<times> retained) option" where
  "analyze_loop p st =
     (case readline (proc_out p) of
        (raw, out') \<Rightarrow>
          (let line = strip raw in
           if startswith line ''bestmove'' then Some (p\<lparr>proc_out := out'\<rparr>, st)
           else analyze_loop (p\<lparr>proc_out := out'\<rparr>) (analyze_step st line)))"

record pv =
  pv_moves :: string
  pv_eval :: rat
  pv_mate :: "int option"

definition to_pv :: "parsed \<Rightarrow> pv" where
  "to_pv l = \<lparr>pv_moves = p_moves l, pv_eval = p_eval l, pv_mate = p_mate l\<rparr>"

text \<open>Lines 83 to 91: the ranks 1 to \<open>MULTI_PV\<close> in order, each appended if retained.\<close>

definition collect_pvs :: "(int \<rightharpoonup> parsed) \<Rightarrow> pv list" where
  "collect_pvs lines =
     foldl (\<lambda>result i. case lines i of None \<Rightarrow> result | Some l \<Rightarrow> result @ [to_pv l])
       [] [1..MULTI_PV]"

record analysis =
  a_pvs :: "pv list"
  a_depth :: int

text \<open>Lines 65 to 93: the loop from the empty dictionary and depth 0, then the result.\<close>

definition read_result :: "proc \<Rightarrow> (analysis \<times> proc) outcome" where
  "read_result p =
     (case analyze_loop p (Map.empty, 0) of
        None \<Rightarrow> None
      | Some (p', lines, final_depth) \<Rightarrow>
          Some (Inr (\<lparr>a_pvs = collect_pvs lines, a_depth = final_depth\<rparr>, p')))"

definition analyze :: "proc \<Rightarrow> string \<Rightarrow> (analysis \<times> proc) outcome" where
  "analyze p fen =
     then_do (Some (send p ''ucinewgame'')) (\<lambda>p.
     then_do (Some (send p (''position fen '' @ fen))) (\<lambda>p.
     then_do (Some (send p (''go movetime '' @ str_of_int SEARCH_TIME_MS))) (\<lambda>p.
     read_result p)))"

section \<open>The worker\<close>

text \<open>
  A key of the \<^verbatim>\<open>results\<close> dictionary, and the \<^verbatim>\<open>id\<close> of a position: a Python integer or
  a Python string. An integer never equals a string, so \<open>IntKey 1\<close> and \<open>StrKey ''1''\<close> are
  different keys.
\<close>

datatype key = IntKey int | StrKey string

text \<open>\<^verbatim>\<open>str(pos_id)\<close>.\<close>

fun key_str :: "key \<Rightarrow> string" where
  "key_str (IntKey n) = str_of_int n"
| "key_str (StrKey s) = s"

record job_result =
  r_fen :: string
  r_depth :: int
  r_pvs :: "pv list"
  r_analyzedAt :: string

text \<open>
  \<^verbatim>\<open>results\<close> is a dictionary, kept as an association list in insertion order;
  \<^verbatim>\<open>results[k] = v\<close> is \<open>AList.update k v\<close> and \<^verbatim>\<open>k in results\<close> is \<open>has_key\<close>.
\<close>

type_synonym results = "(key \<times> job_result) list"

definition has_key :: "results \<Rightarrow> key \<Rightarrow> bool" where
  "has_key rs k = (map_of rs k \<noteq> None)"

record progress =
  pg_done :: int
  pg_last :: string

text \<open>The objects the workers and \<^verbatim>\<open>main\<close> share, apart from the queue.\<close>

record store =
  st_results :: results
  st_progress :: progress

text \<open>
  Lines 157 to 165: the block under the lock. \<open>now\<close> is the text of
  \<^verbatim>\<open>datetime.now().isoformat()\<close> at that moment.
\<close>

definition record_result :: "string \<Rightarrow> key \<Rightarrow> string \<Rightarrow> analysis \<Rightarrow> store \<Rightarrow> store" where
  "record_result now pos_id fen result st =
     \<lparr>st_results = AList.update pos_id
         \<lparr>r_fen = fen, r_depth = a_depth result, r_pvs = a_pvs result, r_analyzedAt = now\<rparr>
         (st_results st),
      st_progress =
        \<lparr>pg_done = pg_done (st_progress st) + 1,
         pg_last = ''#'' @ key_str pos_id @ '' @ d'' @ str_of_int (a_depth result)\<rparr>\<rparr>"

text \<open>
  How a worker thread ends: it returns, or an exception leaves \<^verbatim>\<open>worker_thread\<close> and ends
  the thread. Either way the queue and the store are left as they are at that moment.
\<close>

datatype thread_end =
    Returned "(key \<times> string) list" store
  | Raised pyerror "(key \<times> string) list" store

fun end_store :: "thread_end \<Rightarrow> store" where
  "end_store (Returned task_queue st) = st"
| "end_store (Raised e task_queue st) = st"

text \<open>
  Lines 149 to 169, as one worker sees them: \<^verbatim>\<open>task_queue.get(timeout=1)\<close> takes the
  head of the queue, or raises \<^verbatim>\<open>queue.Empty\<close> on the empty queue, which ends the loop.
  \<open>clock\<close> gives the time text for the job of each id. The other workers, which take
  other items from the queue and store other keys, are not part of the model.
\<close>

fun worker_loop ::
  "(key \<Rightarrow> string) \<Rightarrow> proc \<Rightarrow> (key \<times> string) list \<Rightarrow> store \<Rightarrow> thread_end option" where
  "worker_loop clock p [] st =
     (case quit p of Inl e \<Rightarrow> Some (Raised e [] st) | Inr p' \<Rightarrow> Some (Returned [] st))"
| "worker_loop clock p ((pos_id, fen) # task_queue) st =
     (case analyze p fen of
        None \<Rightarrow> None
      | Some (Inl e) \<Rightarrow> Some (Raised e task_queue st)
      | Some (Inr (result, p')) \<Rightarrow>
          worker_loop clock p' task_queue (record_result (clock pos_id) pos_id fen result st))"

text \<open>\<^verbatim>\<open>worker_thread\<close>, with \<open>p\<close> the process that \<^verbatim>\<open>start\<close> creates.\<close>

definition worker_thread ::
  "(key \<Rightarrow> string) \<Rightarrow> proc \<Rightarrow> (key \<times> string) list \<Rightarrow> store \<Rightarrow> thread_end option" where
  "worker_thread clock p task_queue st =
     (case start p of
        None \<Rightarrow> None
      | Some (Inl e) \<Rightarrow> Some (Raised e task_queue st)
      | Some (Inr p') \<Rightarrow> worker_loop clock p' task_queue st)"

section \<open>Start-up and saving in \<^verbatim>\<open>main\<close>\<close>

record position =
  pos_id :: key
  pos_fen :: string

text \<open>Lines 196 to 199: the queue is filled from the positions not yet in \<^verbatim>\<open>results\<close>.\<close>

definition populate_queue :: "position list \<Rightarrow> results \<Rightarrow> (key \<times> string) list" where
  "populate_queue positions rs =
     foldl (\<lambda>task_queue pos.
              if \<not> has_key rs (StrKey (key_str (pos_id pos))) \<and> \<not> has_key rs (pos_id pos)
              then task_queue @ [(pos_id pos, pos_fen pos)]
              else task_queue)
       [] positions"

text \<open>
  What \<^verbatim>\<open>json.load\<close> reads back from what \<^verbatim>\<open>json.dump\<close> wrote: every key has become a
  string (an integer key \<open>n\<close> is written as \<^verbatim>\<open>str(n)\<close>), and where two keys are written
  alike the later value is the one kept.
\<close>

definition json_reload :: "results \<Rightarrow> results" where
  "json_reload rs = foldl (\<lambda>acc (k, v). AList.update (StrKey (key_str k)) v acc) [] rs"

text \<open>
  The files on disk: a path has a content or does not exist. Lines 239 to 240 and 249 to
  250 save the results with \<^verbatim>\<open>open(OUTPUT_PATH, "w")\<close>, which empties the file at that
  path, followed by \<^verbatim>\<open>json.dump\<close>, which writes the text piece by piece to the same file.
\<close>

type_synonym files = "string \<rightharpoonup> string"

definition open_w :: "files \<Rightarrow> string \<Rightarrow> files" where
  "open_w fs path = fs(path \<mapsto> [])"

definition write_chunk :: "files \<Rightarrow> string \<Rightarrow> string \<Rightarrow> files" where
  "write_chunk fs path chunk =
     fs(path \<mapsto> (case fs path of None \<Rightarrow> chunk | Some old \<Rightarrow> old @ chunk))"

text \<open>
  The states the disk passes through while the pieces are written: a crash leaves the
  disk in one of them.
\<close>

fun dump_states :: "files \<Rightarrow> string \<Rightarrow> string list \<Rightarrow> files list" where
  "dump_states fs path [] = [fs]"
| "dump_states fs path (chunk # chunks) = fs # dump_states (write_chunk fs path chunk) path chunks"

text \<open>
  All the states of one save, from the disk before \<^verbatim>\<open>open\<close> to the disk after the last
  piece; \<open>chunks\<close> are the pieces of the JSON text of \<^verbatim>\<open>results\<close> in the order in which
  they reach the disk, however the writes are buffered.
\<close>

definition save_states :: "files \<Rightarrow> string \<Rightarrow> string list \<Rightarrow> files list" where
  "save_states fs path chunks = fs # dump_states (open_w fs path) path chunks"

section \<open>What a job observes\<close>

text \<open>
  The stripped lines that the loop of \<^verbatim>\<open>analyze\<close> reads before the terminal line, given
  the lines the engine writes.
\<close>

definition observed :: "string list \<Rightarrow> string list" where
  "observed out = takeWhile (\<lambda>line. \<not> startswith line ''bestmove'') (map strip out)"

text \<open>
  Of these, the successfully parsed info lines, in the order read: the lines that pass
  the test of line 74 and for which \<^verbatim>\<open>_parse_info\<close> returns a result.
\<close>

definition parsed_lines :: "string list \<Rightarrow> parsed list" where
  "parsed_lines ls =
     List.map_filter
       (\<lambda>line. if py_in ''info depth'' line \<and> py_in '' pv '' line then parse_info line else None)
       ls"

section \<open>Facts about the string primitives\<close>

lemma split_ws_no_space:
  "\<forall>c\<in>set cur. \<not> is_space c \<Longrightarrow> t \<in> set (split_ws cur s) \<Longrightarrow> \<forall>c\<in>set t. \<not> is_space c"
proof (induction s arbitrary: cur)
  case Nil
  then show ?case by (simp split: if_splits)
next
  case (Cons a s)
  show ?case
  proof (cases "is_space a")
    case True
    then have "t = cur \<or> t \<in> set (split_ws [] s)"
      using Cons.prems(2) by (simp split: if_splits)
    then show ?thesis
      using Cons.prems(1) Cons.IH [of "[]"] by auto
  next
    case False
    then have "t \<in> set (split_ws (cur @ [a]) s)"
      using Cons.prems(2) by simp
    moreover have "\<forall>c\<in>set (cur @ [a]). \<not> is_space c"
      using False Cons.prems(1) by simp
    ultimately show ?thesis
      using Cons.IH [of "cur @ [a]"] by blast
  qed
qed

lemma py_index_Some_mem: "py_index ps key = Some i \<Longrightarrow> key \<in> set ps"
  by (induction ps arbitrary: i) (auto split: if_splits)

text \<open>
  No token of \<^verbatim>\<open>line.split()\<close> contains a blank, so \<^verbatim>\<open>_extract\<close> finds nothing when
  it is asked for a key that has one.
\<close>

lemma extract_key_spaced:
  assumes "CHR '' '' \<in> set key"
  shows "extract_key line key = None"
proof (cases "py_index (py_split line) key")
  case None
  then show ?thesis by (simp add: extract_key_def)
next
  case (Some i)
  then have "key \<in> set (split_ws [] line)"
    using py_index_Some_mem by (simp add: py_split_def)
  then have "\<forall>c\<in>set key. \<not> is_space c"
    using split_ws_no_space [of "[]" key line] by simp
  moreover have "is_space (CHR '' '')" by (simp add: is_space_def)
  ultimately show ?thesis using assms by blast
qed

text \<open>
  \<^verbatim>\<open>_parse_info\<close> asks \<^verbatim>\<open>_extract\<close> for the keys \<^verbatim>\<open>"score cp"\<close> and \<^verbatim>\<open>"score mate"\<close>, gets
  \<open>None\<close>, and \<^verbatim>\<open>int(None)\<close> raises inside the \<^verbatim>\<open>try\<close>: no line is ever parsed.
\<close>

lemma parse_info_None: "parse_info line = None"
  by (simp add: parse_info_def py_int_def extract_key_spaced split: option.splits)

section \<open>The score of an info line\<close>

text \<open>
  C2. The claim is that a line carrying a score is parsed, and that a line with
  \<^verbatim>\<open>score mate 3\<close> yields the display evaluation 9999. The code returns no result for
  such a line: here \<^verbatim>\<open>_parse_info\<close> is run on a well-formed line with \<^verbatim>\<open>score mate 3\<close>.
  By \<open>parse_info_None\<close> the same holds of every line.
\<close>

theorem parse_info_mate_line_unparsed:
  "parse_info ''info depth 12 multipv 1 score mate 3 nodes 5 pv e1g1 e8g8'' = None"
  by code_simp

section \<open>The handshake\<close>

lemma readline_simps [simp]: "readline [] = ([], [])" "readline (l # ls) = (l, ls)"
  by (simp_all add: readline_def)
lemma strip_Nil [simp]: "strip [] = []" by (simp add: strip_def)

lemma wait_for_Cons:
  "proc_out p = l # ls \<Longrightarrow>
   wait_for p target = (if strip l = target then Some (p\<lparr>proc_out := ls\<rparr>)
                        else wait_for (p\<lparr>proc_out := ls\<rparr>) target)"
  by (subst wait_for.simps) simp

lemma wait_for_Some_seen:
  assumes "wait_for p target = Some p'"
  shows "target = [] \<or> target \<in> strip ` set (proc_out p)"
proof (rule wait_for.raw_induct
    [where P = "\<lambda>p target p'. target = [] \<or> target \<in> strip ` set (proc_out p)", OF _ assms],
    goal_cases)
  case (1 f q t q')
  show ?case
  proof (cases "proc_out q")
    case Nil
    then have "t = [] \<or> f (q\<lparr>proc_out := []\<rparr>) t = Some q'"
      using 1(2) by (auto split: if_splits)
    then show ?thesis
      using 1(1) [of "q\<lparr>proc_out := []\<rparr>" t q'] by auto
  next
    case (Cons l ls)
    then have "strip l = t \<or> f (q\<lparr>proc_out := ls\<rparr>) t = Some q'"
      using 1(2) by (auto split: if_splits)
    then show ?thesis
      using 1(1) [of "q\<lparr>proc_out := ls\<rparr>" t q'] Cons by auto
  qed
qed

lemma wait_for_blocks:
  "target \<noteq> [] \<Longrightarrow> target \<notin> strip ` set (proc_out p) \<Longrightarrow> wait_for p target = None"
  using wait_for_Some_seen [of p target] by (cases "wait_for p target") auto

lemma wait_for_returns:
  "proc_out p = out \<Longrightarrow> target \<in> strip ` set out \<Longrightarrow> \<exists>p'. wait_for p target = Some p'"
proof (induction out arbitrary: p)
  case Nil then show ?case by simp
next
  case (Cons l ls)
  show ?case
  proof (cases "strip l = target")
    case True then show ?thesis using Cons.prems(1) by (simp add: wait_for_Cons)
  next
    case False
    then have "target \<in> strip ` set ls" using Cons.prems(2) by auto
    then obtain p' where "wait_for (p\<lparr>proc_out := ls\<rparr>) target = Some p'"
      using Cons.IH [of "p\<lparr>proc_out := ls\<rparr>"] by auto
    then show ?thesis using False Cons.prems(1) by (simp add: wait_for_Cons)
  qed
qed

lemma wait_for_Some_drop:
  assumes "wait_for p target = Some p'"
  shows "\<exists>n. p' = p\<lparr>proc_out := drop n (proc_out p)\<rparr>"
proof (rule wait_for.raw_induct
    [where P = "\<lambda>p target p'. \<exists>n. p' = p\<lparr>proc_out := drop n (proc_out p)\<rparr>", OF _ assms],
    goal_cases)
  case (1 f q t q')
  show ?case
  proof (cases "proc_out q")
    case Nil
    then have "q' = q\<lparr>proc_out := []\<rparr> \<or> f (q\<lparr>proc_out := []\<rparr>) t = Some q'"
      using 1(2) by (auto split: if_splits)
    then show ?thesis
      using 1(1) [of "q\<lparr>proc_out := []\<rparr>" t q'] Nil by auto
  next
    case (Cons l ls)
    then have "q' = q\<lparr>proc_out := ls\<rparr> \<or> f (q\<lparr>proc_out := ls\<rparr>) t = Some q'"
      using 1(2) by (auto split: if_splits)
    then show ?thesis
    proof
      assume "q' = q\<lparr>proc_out := ls\<rparr>"
      then have "q' = q\<lparr>proc_out := drop 1 (proc_out q)\<rparr>" using Cons by simp
      then show ?thesis by blast
    next
      assume "f (q\<lparr>proc_out := ls\<rparr>) t = Some q'"
      then obtain n where "q' = q\<lparr>proc_out := drop n ls\<rparr>"
        using 1(1) [of "q\<lparr>proc_out := ls\<rparr>" t q'] by auto
      then have "q' = q\<lparr>proc_out := drop (Suc n) (proc_out q)\<rparr>" using Cons by simp
      then show ?thesis by blast
    qed
  qed
qed

lemma then_do_Inr_D:
  "then_do m f = Some (Inr y) \<Longrightarrow> \<exists>x. m = Some (Inr x) \<and> f x = Some (Inr y)"
  by (auto simp: then_do_def split: option.splits sum.splits)

lemma then_do_Inl_D:
  "then_do m f = Some (Inl e) \<Longrightarrow> m = Some (Inl e) \<or> (\<exists>x. m = Some (Inr x) \<and> f x = Some (Inl e))"
  by (auto simp: then_do_def split: option.splits sum.splits)

lemma send_Inr_D:
  "send p cmd = Inr q \<Longrightarrow> proc_out q = proc_out p"
  by (auto simp: send_def split: option.splits nat.splits)

lemma send_open:
  "proc_accepts p = None \<Longrightarrow> send p cmd = Inr (p\<lparr>proc_sent := proc_sent p @ [cmd @ [CHR 0x0A]]\<rparr>)"
  by (simp add: send_def)

lemma await_Inr_D:
  "await p target = Some (Inr q) \<Longrightarrow> wait_for p target = Some q"
  by (auto simp: await_def)

lemma await_not_Inl: "await p target \<noteq> Some (Inl e)"
  by (auto simp: await_def)

lemma start_Inr_D:
  assumes "start p = Some (Inr p')"
  shows "''uciok'' \<in> strip ` set (proc_out p) \<and> ''readyok'' \<in> strip ` set (proc_out p)"
proof -
  from assms obtain p1 p2 p3 p4 p5 p6 where
    s1: "send p ''uci'' = Inr p1" and
    w1: "wait_for p1 ''uciok'' = Some p2" and
    s2: "send p2 ''setoption name UCI_Chess960 value true'' = Inr p3" and
    s3: "send p3 (''setoption name Threads value '' @ str_of_int THREADS_PER_ENGINE) = Inr p4" and
    s4: "send p4 (''setoption name MultiPV value '' @ str_of_int MULTI_PV) = Inr p5" and
    s5: "send p5 ''isready'' = Inr p6" and
    w2: "wait_for p6 ''readyok'' = Some p'"
    unfolding start_def by (fastforce dest!: then_do_Inr_D await_Inr_D)
  have o1: "proc_out p1 = proc_out p" using s1 by (rule send_Inr_D)
  obtain n where "p2 = p1\<lparr>proc_out := drop n (proc_out p1)\<rparr>"
    using wait_for_Some_drop [OF w1] by blast
  then have o2: "proc_out p2 = drop n (proc_out p)" using o1 by simp
  have "proc_out p6 = proc_out p2"
    using send_Inr_D [OF s2] send_Inr_D [OF s3] send_Inr_D [OF s4] send_Inr_D [OF s5] by simp
  then have o6: "set (proc_out p6) \<subseteq> set (proc_out p)"
    using o2 by (simp add: set_drop_subset)
  have "''uciok'' \<in> strip ` set (proc_out p)"
    using wait_for_Some_seen [OF w1] o1 by simp
  moreover have "''readyok'' \<in> strip ` set (proc_out p)"
    using wait_for_Some_seen [OF w2] o6 by auto
  ultimately show ?thesis by blast
qed

lemma start_open_not_Inl:
  assumes "proc_accepts p = None"
  shows "start p \<noteq> Some (Inl e)"
proof
  assume a: "start p = Some (Inl e)"
  define c1 where "c1 = ''setoption name UCI_Chess960 value true''"
  define c2 where "c2 = ''setoption name Threads value '' @ str_of_int THREADS_PER_ENGINE"
  define c3 where "c3 = ''setoption name MultiPV value '' @ str_of_int MULTI_PV"
  have acc: "\<And>q c. proc_accepts q = None \<Longrightarrow> \<exists>q'. send q c = Inr q' \<and> proc_accepts q' = None"
    by (simp add: send_def)
  have wacc: "\<And>q t q'. proc_accepts q = None \<Longrightarrow> wait_for q t = Some q' \<Longrightarrow> proc_accepts q' = None"
    using wait_for_Some_drop by fastforce
  obtain p1 where s1: "send p ''uci'' = Inr p1" "proc_accepts p1 = None"
    using acc [OF assms] by blast
  show False
  proof (cases "wait_for p1 ''uciok''")
    case None
    then show ?thesis using a s1 by (simp add: start_def then_do_def await_def)
  next
    case (Some p2)
    then have a2: "proc_accepts p2 = None" using wacc s1(2) by blast
    obtain p3 where s2: "send p2 c1 = Inr p3" "proc_accepts p3 = None" using acc [OF a2] by blast
    obtain p4 where s3: "send p3 c2 = Inr p4" "proc_accepts p4 = None" using acc [OF s2(2)] by blast
    obtain p5 where s4: "send p4 c3 = Inr p5" "proc_accepts p5 = None" using acc [OF s3(2)] by blast
    obtain p6 where s5: "send p5 ''isready'' = Inr p6" "proc_accepts p6 = None" using acc [OF s4(2)] by blast
    have "start p = await p6 ''readyok''"
      using s1 Some s2 s3 s4 s5 by (simp add: start_def then_do_def await_def c1_def c2_def c3_def)
    then show ?thesis using a by (metis await_not_Inl)
  qed
qed

text \<open>
  C3, as the code has it. If the output of the engine ends and one of the two
  acknowledgment lines (\<^verbatim>\<open>uciok\<close>, \<^verbatim>\<open>readyok\<close>) has not come, \<^verbatim>\<open>start()\<close> does not return
  normally; and as long as the writes to the engine succeed, it raises nothing either:
  \<^verbatim>\<open>_wait_for\<close> reads the ended stream for ever.
\<close>

theorem start_blocks_without_ack:
  assumes "''uciok'' \<notin> strip ` set (proc_out p) \<or> ''readyok'' \<notin> strip ` set (proc_out p)"
  shows "(\<forall>p'. start p \<noteq> Some (Inr p')) \<and> (proc_accepts p = None \<longrightarrow> start p = None)"
proof -
  have 1: "\<forall>p'. start p \<noteq> Some (Inr p')"
    using assms start_Inr_D by blast
  have 2: "start p = None" if "proc_accepts p = None"
  proof (cases "start p")
    case None then show ?thesis .
  next
    case (Some r)
    then show ?thesis using 1 start_open_not_Inl [OF that] by (cases r) auto
  qed
  from 1 2 show ?thesis by blast
qed

theorem start_blocks_without_ack_witness:
  "''readyok'' \<notin> strip ` set [''id name Stockfish'', ''uciok'']
   \<and> start \<lparr>proc_out = [''id name Stockfish'', ''uciok''], proc_accepts = None, proc_sent = []\<rparr>
       = None"
  using start_blocks_without_ack
    [of "\<lparr>proc_out = [''id name Stockfish'', ''uciok''], proc_accepts = None, proc_sent = []\<rparr>"]
  by (simp add: strip_def is_space_def)

text \<open>
  C3, as the claim has it, fails: on a stream that has ended before \<^verbatim>\<open>uciok\<close>,
  \<^verbatim>\<open>start()\<close> raises no error; it does not return.
\<close>

theorem start_eof_counterexample:
  "start \<lparr>proc_out = [], proc_accepts = None, proc_sent = []\<rparr> = None"
  by (simp add: start_def then_do_def await_def send_def wait_for_blocks)

section \<open>The loop of \<^verbatim>\<open>analyze\<close>\<close>

text \<open>
  One turn of the loop on a stream that still has a line, and the loop at end of input,
  where \<^verbatim>\<open>readline\<close> returns the empty string for ever.
\<close>

lemma analyze_loop_Cons:
  "proc_out p = l # ls \<Longrightarrow>
   analyze_loop p st =
     (if startswith (strip l) ''bestmove'' then Some (p\<lparr>proc_out := ls\<rparr>, st)
      else analyze_loop (p\<lparr>proc_out := ls\<rparr>) (analyze_step st (strip l)))"
  by (subst analyze_loop.simps) (simp add: Let_def)

lemma analyze_step_Nil [simp]: "analyze_step st [] = st"
  by (simp add: analyze_step_def)

lemma analyze_loop_eof:
  assumes "analyze_loop p st = Some r"
  shows "proc_out p \<noteq> []"
proof (rule analyze_loop.raw_induct
    [where P = "\<lambda>p st r. proc_out p \<noteq> []", OF _ assms], goal_cases)
  case (1 f q s r')
  show ?case
  proof (cases "proc_out q")
    case Nil
    then have "f (q\<lparr>proc_out := []\<rparr>) s = Some r'"
      using 1(2) by (simp add: Let_def startswith_def)
    then show ?thesis
      using 1(1) [of "q\<lparr>proc_out := []\<rparr>" s r'] by simp
  next
    case (Cons l ls)
    then show ?thesis by simp
  qed
qed

lemma analyze_loop_Nil: "proc_out p = [] \<Longrightarrow> analyze_loop p st = None"
  using analyze_loop_eof [of p st] by (cases "analyze_loop p st") auto

lemma analyze_loop_lit:
  "analyze_loop \<lparr>proc_out = l # ls, proc_accepts = a, proc_sent = s\<rparr> st =
     (if startswith (strip l) ''bestmove''
      then Some (\<lparr>proc_out = ls, proc_accepts = a, proc_sent = s\<rparr>, st)
      else analyze_loop \<lparr>proc_out = ls, proc_accepts = a, proc_sent = s\<rparr> (analyze_step st (strip l)))"
  by (subst analyze_loop.simps) (simp add: Let_def)

lemma observed_Cons:
  "observed (l # ls) = (if startswith (strip l) ''bestmove'' then [] else strip l # observed ls)"
  by (simp add: observed_def)

text \<open>
  If the loop returns, the terminal line has come, and the state is the one reached by
  the steps on the lines before it. If the terminal line comes, the loop returns.
\<close>

lemma analyze_loop_result:
  "proc_out p = out \<Longrightarrow> analyze_loop p st = Some (p', st') \<Longrightarrow>
   st' = foldl analyze_step st (observed out)
   \<and> (\<exists>l\<in>set out. startswith (strip l) ''bestmove'')"
proof (induction out arbitrary: p st)
  case Nil
  then show ?case by (simp add: analyze_loop_Nil)
next
  case (Cons l ls)
  have step: "analyze_loop p st =
     (if startswith (strip l) ''bestmove'' then Some (p\<lparr>proc_out := ls\<rparr>, st)
      else analyze_loop (p\<lparr>proc_out := ls\<rparr>) (analyze_step st (strip l)))"
    using Cons.prems(1) by (rule analyze_loop_Cons)
  show ?case
  proof (cases "startswith (strip l) ''bestmove''")
    case True
    then have "st' = st" using Cons.prems(2) step by simp
    then show ?thesis using True by (simp add: observed_Cons)
  next
    case False
    then have "analyze_loop (p\<lparr>proc_out := ls\<rparr>) (analyze_step st (strip l)) = Some (p', st')"
      using Cons.prems(2) step by simp
    then have "st' = foldl analyze_step (analyze_step st (strip l)) (observed ls)
      \<and> (\<exists>l\<in>set ls. startswith (strip l) ''bestmove'')"
      using Cons.IH [of "p\<lparr>proc_out := ls\<rparr>" "analyze_step st (strip l)"] by simp
    then show ?thesis using False by (simp add: observed_Cons)
  qed
qed

lemma analyze_loop_returns:
  "proc_out p = out \<Longrightarrow> \<exists>l\<in>set out. startswith (strip l) ''bestmove'' \<Longrightarrow>
   \<exists>r. analyze_loop p st = Some r"
proof (induction out arbitrary: p st)
  case Nil
  then show ?case by simp
next
  case (Cons l ls)
  have step: "analyze_loop p st =
     (if startswith (strip l) ''bestmove'' then Some (p\<lparr>proc_out := ls\<rparr>, st)
      else analyze_loop (p\<lparr>proc_out := ls\<rparr>) (analyze_step st (strip l)))"
    using Cons.prems(1) by (rule analyze_loop_Cons)
  show ?case
  proof (cases "startswith (strip l) ''bestmove''")
    case True
    then show ?thesis using step by simp
  next
    case False
    then have "\<exists>l\<in>set ls. startswith (strip l) ''bestmove''" using Cons.prems(2) by auto
    then have "\<exists>r. analyze_loop (p\<lparr>proc_out := ls\<rparr>) (analyze_step st (strip l)) = Some r"
      using Cons.IH [of "p\<lparr>proc_out := ls\<rparr>" "analyze_step st (strip l)"] by simp
    then show ?thesis using False step by simp
  qed
qed

lemma foldl_analyze_step:
  "foldl analyze_step st ls = foldl retain st (parsed_lines ls)"
proof (induction ls arbitrary: st)
  case Nil
  then show ?case by (simp add: parsed_lines_def List.map_filter_simps)
next
  case (Cons l ls)
  then show ?case
    by (simp add: parsed_lines_def List.map_filter_simps analyze_step_def split: option.splits)
qed




lemma retain_lines_same:
  "fst (retain (lines, d) q) (p_pv_num q) =
     (case lines (p_pv_num q) of
        None \<Rightarrow> Some q
      | Some old \<Rightarrow> if p_depth old < p_depth q then Some q else Some old)"
  by (simp add: retain_def Let_def split: option.splits)

lemma collect_loop:
  "foldl (\<lambda>result i. case lines i of None \<Rightarrow> result | Some l \<Rightarrow> result @ [to_pv l]) acc xs
   = acc @ map to_pv (List.map_filter lines xs)"
  by (induction xs arbitrary: acc) (simp_all add: List.map_filter_simps split: option.splits)

lemma length_map_filter_le: "length (List.map_filter f xs) \<le> length xs"
  by (induction xs) (simp_all add: List.map_filter_simps split: option.splits)

lemma collect_pvs_eq: "collect_pvs lines = map to_pv (List.map_filter lines [1..MULTI_PV])"
  by (simp add: collect_pvs_def collect_loop)

lemma ranks: "[1..MULTI_PV] = [1, 2, 3]"
  unfolding MULTI_PV_def by code_simp

lemma collect_pvs_length: "length (collect_pvs lines) \<le> nat MULTI_PV"
proof -
  have "length (List.map_filter lines [1..MULTI_PV]) \<le> length [1..MULTI_PV]"
    by (rule length_map_filter_le)
  then show ?thesis by (simp add: collect_pvs_eq MULTI_PV_def)
qed

lemma collect_pvs_empty: "collect_pvs Map.empty = []"
  by (simp add: collect_pvs_def ranks)

lemma then_do_send_D:
  "then_do (Some (send p c)) f = Some (Inr y) \<Longrightarrow> \<exists>q. send p c = Inr q \<and> f q = Some (Inr y)"
  by (auto dest: then_do_Inr_D)

lemma analyze_Inr_D:
  assumes "analyze p fen = Some (Inr r)"
  shows "\<exists>q. proc_out q = proc_out p \<and> read_result q = Some (Inr r)"
proof -
  obtain p1 p2 p3 where s1: "send p ''ucinewgame'' = Inr p1"
    and s2: "send p1 (''position fen '' @ fen) = Inr p2"
    and s3: "send p2 (''go movetime '' @ str_of_int SEARCH_TIME_MS) = Inr p3"
    and r3: "read_result p3 = Some (Inr r)"
    using assms unfolding analyze_def by (blast dest!: then_do_send_D)
  have "proc_out p3 = proc_out p"
    using send_Inr_D [OF s1] send_Inr_D [OF s2] send_Inr_D [OF s3] by simp
  then show ?thesis using r3 by blast
qed

lemma read_result_D:
  assumes "read_result q = Some (Inr (a, p'))"
  shows "a = \<lparr>a_pvs = collect_pvs (fst (foldl retain (Map.empty, 0) (parsed_lines (observed (proc_out q))))),
              a_depth = snd (foldl retain (Map.empty, 0) (parsed_lines (observed (proc_out q))))\<rparr>"
proof -
  from assms obtain lines d where l: "analyze_loop q (Map.empty, 0) = Some (p', lines, d)"
    and a: "a = \<lparr>a_pvs = collect_pvs lines, a_depth = d\<rparr>"
    by (auto simp: read_result_def split: option.splits)
  have "(lines, d) = foldl analyze_step (Map.empty, 0) (observed (proc_out q))"
    using analyze_loop_result [OF refl l] by simp
  then have "(lines, d) = foldl retain (Map.empty, 0) (parsed_lines (observed (proc_out q)))"
    by (simp add: foldl_analyze_step)
  then show ?thesis using a by (metis fst_conv snd_conv)
qed

lemma analyze_result:
  assumes "analyze p fen = Some (Inr (a, p'))"
  shows "a = \<lparr>a_pvs = collect_pvs (fst (foldl retain (Map.empty, 0) (parsed_lines (observed (proc_out p))))),
              a_depth = snd (foldl retain (Map.empty, 0) (parsed_lines (observed (proc_out p))))\<rparr>"
  using analyze_Inr_D [OF assms] read_result_D by fastforce

lemma parsed_lines_Nil: "parsed_lines ls = []"
  by (induction ls) (simp_all add: parsed_lines_def List.map_filter_simps parse_info_None)

lemma send_ok:
  assumes "\<forall>n. proc_accepts p = Some n \<longrightarrow> k < n"
  shows "\<exists>q. send p c = Inr q \<and> proc_out q = proc_out p
             \<and> (\<forall>n. proc_accepts q = Some n \<longrightarrow> k \<le> n)"
proof (cases "proc_accepts p")
  case None
  then show ?thesis by (simp add: send_def)
next
  case (Some n)
  then have "k < n" using assms by blast
  then obtain m where "n = Suc m" "k \<le> m" by (cases n) auto
  then show ?thesis using Some by (simp add: send_def)
qed

lemma analyze_returns:
  assumes "\<forall>n. proc_accepts p = Some n \<longrightarrow> 3 \<le> n"
    and "\<exists>l\<in>set (proc_out p). startswith (strip l) ''bestmove''"
  shows "\<exists>r. analyze p fen = Some (Inr r)"
proof -
  have a: "\<forall>n. proc_accepts p = Some n \<longrightarrow> 2 < n" using assms(1) by force
  obtain p1 where s1: "send p ''ucinewgame'' = Inr p1" "proc_out p1 = proc_out p"
    "\<forall>n. proc_accepts p1 = Some n \<longrightarrow> 2 \<le> n"
    using send_ok [OF a] by blast
  have a1: "\<forall>n. proc_accepts p1 = Some n \<longrightarrow> 1 < n" using s1(3) by force
  obtain p2 where s2: "send p1 (''position fen '' @ fen) = Inr p2" "proc_out p2 = proc_out p1"
    "\<forall>n. proc_accepts p2 = Some n \<longrightarrow> 1 \<le> n"
    using send_ok [OF a1] by blast
  have a2: "\<forall>n. proc_accepts p2 = Some n \<longrightarrow> 0 < n" using s2(3) by force
  obtain p3 where s3: "send p2 (''go movetime '' @ str_of_int SEARCH_TIME_MS) = Inr p3"
    "proc_out p3 = proc_out p2"
    using send_ok [OF a2] by blast
  have "\<exists>l\<in>set (proc_out p3). startswith (strip l) ''bestmove''"
    using assms(2) s1(2) s2(2) s3(2) by simp
  then obtain r where "analyze_loop p3 (Map.empty, 0) = Some r"
    using analyze_loop_returns [OF refl] by blast
  then have "\<exists>r. read_result p3 = Some (Inr r)"
    by (cases r) (simp add: read_result_def)
  moreover have "analyze p fen = read_result p3"
    using s1(1) s2(1) s3(1) by (simp add: analyze_def then_do_def)
  ultimately show ?thesis by simp
qed

lemma str_20000: "str_of_int SEARCH_TIME_MS = ''20000''"
  by (simp add: str_of_int_def SEARCH_TIME_MS_def)

lemma analyze_example:
  "analyze \<lparr>proc_out = [''info depth 1 score cp 20 pv e2e4'', ''bestmove e2e4 ponder e7e5''],
            proc_accepts = None, proc_sent = []\<rparr> ''8/8/8/8/8/8/8/8 w - - 0 1''
   = Some (Inr (\<lparr>a_pvs = [], a_depth = 0\<rparr>,
        \<lparr>proc_out = [], proc_accepts = None,
         proc_sent = [''ucinewgame'' @ [CHR 0x0A],
                      ''position fen 8/8/8/8/8/8/8/8 w - - 0 1'' @ [CHR 0x0A],
                      ''go movetime 20000'' @ [CHR 0x0A]]\<rparr>))"
  by (simp add: analyze_def then_do_def send_def read_result_def analyze_loop_lit
      str_20000 strip_def is_space_def startswith_def analyze_step_def parse_info_None
      collect_pvs_def ranks)

section \<open>Lines without a score\<close>

text \<open>
  C7. A line with neither \<^verbatim>\<open>" score cp "\<close> nor \<^verbatim>\<open>" score mate "\<close> in it is not
  parsed: \<^verbatim>\<open>_parse_info\<close> returns \<open>None\<close>, and the loop leaves the retained lines and
  the depth as they were.
\<close>

theorem unscored_line_skipped:
  assumes "\<not> py_in '' score cp '' line" and "\<not> py_in '' score mate '' line"
  shows "parse_info line = None \<and> analyze_step st line = st"
proof -
  have "parse_info line = None"
    using assms by (simp add: parse_info_def split: option.splits)
  then show ?thesis by (simp add: analyze_step_def)
qed

theorem unscored_line_skipped_witness:
  "\<not> py_in '' score cp '' ''info depth 9 currmove e2e4 pv e2e4''
   \<and> \<not> py_in '' score mate '' ''info depth 9 currmove e2e4 pv e2e4''
   \<and> parse_info ''info depth 9 currmove e2e4 pv e2e4'' = None
   \<and> analyze_step
        ([1 \<mapsto> \<lparr>p_depth = 7, p_pv_num = 1, p_moves = ''d2d4'', p_eval = 1 / 4, p_mate = None\<rparr>], 7)
        ''info depth 9 currmove e2e4 pv e2e4''
      = ([1 \<mapsto> \<lparr>p_depth = 7, p_pv_num = 1, p_moves = ''d2d4'', p_eval = 1 / 4, p_mate = None\<rparr>], 7)"
proof -
  have h1: "\<not> py_in '' score cp '' ''info depth 9 currmove e2e4 pv e2e4''"
    by (simp add: startswith_def)
  have h2: "\<not> py_in '' score mate '' ''info depth 9 currmove e2e4 pv e2e4''"
    by (simp add: startswith_def)
  show ?thesis
    using h1 h2 unscored_line_skipped [OF h1 h2] by simp
qed

section \<open>Retention by depth\<close>

text \<open>
  C5, as the code has it. For parsed lines of one rank, fed to lines 77 to 81 in order,
  the retained line is the first one of the greatest depth: no line is deeper, and
  every line before it is strictly shallower. A later line of the same depth does not
  replace it, nor does a later line of lower depth.
\<close>

theorem retained_is_first_deepest:
  assumes "ps \<noteq> []" and "\<forall>q\<in>set ps. p_pv_num q = r" and "lines r = None"
  shows "\<exists>i<length ps.
           fst (foldl retain (lines, d) ps) r = Some (ps ! i)
           \<and> (\<forall>j<length ps. p_depth (ps ! j) \<le> p_depth (ps ! i))
           \<and> (\<forall>j<i. p_depth (ps ! j) < p_depth (ps ! i))"
  using assms
proof (induction ps rule: rev_induct)
  case Nil
  then show ?case by simp
next
  case (snoc q ps)
  have r: "p_pv_num q = r" using snoc.prems(2) by simp
  obtain lines' d' where st: "foldl retain (lines, d) ps = (lines', d')"
    by (cases "foldl retain (lines, d) ps")
  have new: "fst (foldl retain (lines, d) (ps @ [q])) r =
     (case lines' r of
        None \<Rightarrow> Some q
      | Some old \<Rightarrow> if p_depth old < p_depth q then Some q else Some old)"
    using retain_lines_same [of lines' d' q] r by (simp add: st)
  show ?case
  proof (cases "ps = []")
    case True
    then have "lines' r = None" using st snoc.prems(3) by simp
    then have "fst (foldl retain (lines, d) (ps @ [q])) r = Some ((ps @ [q]) ! 0)"
      using new True by simp
    then show ?thesis using True by auto
  next
    case False
    then obtain i where i: "i < length ps" "lines' r = Some (ps ! i)"
      "\<forall>j<length ps. p_depth (ps ! j) \<le> p_depth (ps ! i)"
      "\<forall>j<i. p_depth (ps ! j) < p_depth (ps ! i)"
      using snoc.IH snoc.prems(2,3) st by auto
    show ?thesis
    proof (cases "p_depth (ps ! i) < p_depth q")
      case True
      have 1: "length ps < length (ps @ [q])" by simp
      have 2: "fst (foldl retain (lines, d) (ps @ [q])) r = Some ((ps @ [q]) ! length ps)"
        using new i(2) True by simp
      have 3: "\<forall>j<length (ps @ [q]). p_depth ((ps @ [q]) ! j) \<le> p_depth ((ps @ [q]) ! length ps)"
        using i(3) True by (auto simp: nth_append less_Suc_eq)
      have 4: "\<forall>j<length ps. p_depth ((ps @ [q]) ! j) < p_depth ((ps @ [q]) ! length ps)"
        using i(3) True by (auto simp: nth_append)
      show ?thesis using 1 2 3 4 by blast
    next
      case False
      have 1: "i < length (ps @ [q])" using i(1) by simp
      have 2: "fst (foldl retain (lines, d) (ps @ [q])) r = Some ((ps @ [q]) ! i)"
        using new i(1,2) False by (simp add: nth_append)
      have 3: "\<forall>j<length (ps @ [q]). p_depth ((ps @ [q]) ! j) \<le> p_depth ((ps @ [q]) ! i)"
        using i(1,3) False by (auto simp: nth_append less_Suc_eq)
      have 4: "\<forall>j<i. p_depth ((ps @ [q]) ! j) < p_depth ((ps @ [q]) ! i)"
        using i(1,4) by (auto simp: nth_append)
      show ?thesis using 1 2 3 4 by blast
    qed
  qed
qed

theorem retained_is_first_deepest_witness:
  "[\<lparr>p_depth = 5, p_pv_num = 1, p_moves = ''e2e4'', p_eval = 1 / 5, p_mate = None\<rparr>,
    \<lparr>p_depth = 5, p_pv_num = 1, p_moves = ''d2d4'', p_eval = 3 / 10, p_mate = None\<rparr>] \<noteq> []
   \<and> p_pv_num \<lparr>p_depth = 5, p_pv_num = 1, p_moves = ''e2e4'', p_eval = 1 / 5, p_mate = None\<rparr> = 1
   \<and> p_pv_num \<lparr>p_depth = 5, p_pv_num = 1, p_moves = ''d2d4'', p_eval = 3 / 10, p_mate = None\<rparr> = 1
   \<and> (Map.empty :: int \<rightharpoonup> parsed) 1 = None
   \<and> (\<exists>i<length
             [\<lparr>p_depth = 5, p_pv_num = 1, p_moves = ''e2e4'', p_eval = 1 / 5, p_mate = None\<rparr>,
              \<lparr>p_depth = 5, p_pv_num = 1, p_moves = ''d2d4'', p_eval = 3 / 10, p_mate = None\<rparr>].
         fst (foldl retain (Map.empty, 0)
               [\<lparr>p_depth = 5, p_pv_num = 1, p_moves = ''e2e4'', p_eval = 1 / 5, p_mate = None\<rparr>,
                \<lparr>p_depth = 5, p_pv_num = 1, p_moves = ''d2d4'', p_eval = 3 / 10, p_mate = None\<rparr>]) 1
           = Some ([\<lparr>p_depth = 5, p_pv_num = 1, p_moves = ''e2e4'', p_eval = 1 / 5, p_mate = None\<rparr>,
                    \<lparr>p_depth = 5, p_pv_num = 1, p_moves = ''d2d4'', p_eval = 3 / 10, p_mate = None\<rparr>] ! i))"
proof -
  let ?ps = "[\<lparr>p_depth = 5, p_pv_num = 1, p_moves = ''e2e4'', p_eval = 1 / 5, p_mate = None\<rparr>,
              \<lparr>p_depth = 5, p_pv_num = 1, p_moves = ''d2d4'', p_eval = 3 / 10, p_mate = None\<rparr>]"
  have h1: "?ps \<noteq> []" by simp
  have h2: "\<forall>q\<in>set ?ps. p_pv_num q = 1" by simp
  have h3: "(Map.empty :: int \<rightharpoonup> parsed) 1 = None" by simp
  have "\<exists>i<length ?ps. fst (foldl retain (Map.empty, 0) ?ps) 1 = Some (?ps ! i)"
    using retained_is_first_deepest [OF h1 h2 h3, of 0] by blast
  then show ?thesis using h1 h3 by simp
qed

text \<open>
  C5, as the claim has it, fails: of two lines of rank 1 and depth 5, the one retained
  is the earlier one (\<^verbatim>\<open>e2e4\<close>), not the most recently seen (\<^verbatim>\<open>d2d4\<close>).
\<close>

theorem tie_keeps_earlier_counterexample:
  "fst (foldl retain (Map.empty, 0)
         [\<lparr>p_depth = 5, p_pv_num = 1, p_moves = ''e2e4'', p_eval = 1 / 5, p_mate = None\<rparr>,
          \<lparr>p_depth = 5, p_pv_num = 1, p_moves = ''d2d4'', p_eval = 3 / 10, p_mate = None\<rparr>]) 1
   = Some \<lparr>p_depth = 5, p_pv_num = 1, p_moves = ''e2e4'', p_eval = 1 / 5, p_mate = None\<rparr>"
  by (simp add: retain_def)

section \<open>The emitted variants\<close>

text \<open>
  In the dictionary the loop builds from the empty one, the line under a rank is one of
  the parsed lines and is of that rank.
\<close>

lemma retained_rank:
  "fst (foldl retain (lines, d) ps) i = Some l \<Longrightarrow>
   lines i = Some l \<or> (l \<in> set ps \<and> p_pv_num l = i)"
proof (induction ps arbitrary: l rule: rev_induct)
  case Nil
  then show ?case by simp
next
  case (snoc q ps)
  obtain lines' d' where st: "foldl retain (lines, d) ps = (lines', d')"
    by (cases "foldl retain (lines, d) ps")
  have "fst (retain (lines', d') q) i = Some l" using snoc.prems by (simp add: st)
  then have "lines' i = Some l \<or> (l = q \<and> p_pv_num q = i)"
    by (auto simp: retain_def Let_def split: option.splits if_splits)
  then show ?case using snoc.IH [of l] st by auto
qed

text \<open>
  C8. The list built on the terminal line holds, for the ranks 1, 2, 3 in this order,
  the moves, evaluation and mate count of the retained line of each rank that has one;
  ranks without a retained line are left out. So it has at most \<open>MULTI_PV\<close> entries.
  The \<^verbatim>\<open>pvs\<close> of a job that \<^verbatim>\<open>analyze\<close> completes are this list for the dictionary
  retained from the parsed lines the job has read, and a line retained under a rank is
  one of those lines and carries that rank.
\<close>

theorem emitted_variants:
  "collect_pvs lines
     = map (\<lambda>l. \<lparr>pv_moves = p_moves l, pv_eval = p_eval l, pv_mate = p_mate l\<rparr>)
         (List.map_filter lines [1, 2, 3])
   \<and> length (collect_pvs lines) \<le> nat MULTI_PV
   \<and> (analyze p fen = Some (Inr (a, p')) \<longrightarrow>
        a_pvs a = collect_pvs (fst (foldl retain (Map.empty, 0)
                                  (parsed_lines (observed (proc_out p)))))
        \<and> length (a_pvs a) \<le> nat MULTI_PV)
   \<and> (fst (foldl retain (Map.empty, d) ps) i = Some l \<longrightarrow> l \<in> set ps \<and> p_pv_num l = i)"
proof -
  have 1: "collect_pvs lines
     = map (\<lambda>l. \<lparr>pv_moves = p_moves l, pv_eval = p_eval l, pv_mate = p_mate l\<rparr>)
         (List.map_filter lines [1, 2, 3])"
    using collect_pvs_eq [of lines] ranks to_pv_def by (metis (no_types, lifting) map_eq_conv)
  have 3: "a_pvs a = collect_pvs (fst (foldl retain (Map.empty, 0)
                                  (parsed_lines (observed (proc_out p)))))
        \<and> length (a_pvs a) \<le> nat MULTI_PV"
    if "analyze p fen = Some (Inr (a, p'))"
    using analyze_result [OF that] collect_pvs_length by (metis analysis.select_convs(1))
  have 4: "l \<in> set ps \<and> p_pv_num l = i" if "fst (foldl retain (Map.empty, d) ps) i = Some l"
    using retained_rank [OF that] by simp
  show ?thesis using 1 3 4 collect_pvs_length by blast
qed

theorem emitted_variants_witness:
  "collect_pvs (fst (foldl retain (Map.empty, 0)
      [\<lparr>p_depth = 10, p_pv_num = 3, p_moves = ''g1f3'', p_eval = 1 / 10, p_mate = None\<rparr>,
       \<lparr>p_depth = 12, p_pv_num = 1, p_moves = ''e2e4 e7e5'', p_eval = 9999, p_mate = Some 3\<rparr>,
       \<lparr>p_depth = 8, p_pv_num = 1, p_moves = ''d2d4'', p_eval = 1 / 4, p_mate = None\<rparr>]))
     = [\<lparr>pv_moves = ''e2e4 e7e5'', pv_eval = 9999, pv_mate = Some 3\<rparr>,
        \<lparr>pv_moves = ''g1f3'', pv_eval = 1 / 10, pv_mate = None\<rparr>]
   \<and> fst (foldl retain (Map.empty, 0)
      [\<lparr>p_depth = 10, p_pv_num = 3, p_moves = ''g1f3'', p_eval = 1 / 10, p_mate = None\<rparr>,
       \<lparr>p_depth = 12, p_pv_num = 1, p_moves = ''e2e4 e7e5'', p_eval = 9999, p_mate = Some 3\<rparr>,
       \<lparr>p_depth = 8, p_pv_num = 1, p_moves = ''d2d4'', p_eval = 1 / 4, p_mate = None\<rparr>]) 3
     = Some \<lparr>p_depth = 10, p_pv_num = 3, p_moves = ''g1f3'', p_eval = 1 / 10, p_mate = None\<rparr>
   \<and> p_pv_num \<lparr>p_depth = 10, p_pv_num = 3, p_moves = ''g1f3'', p_eval = 1 / 10, p_mate = None\<rparr> = 3
   \<and> analyze \<lparr>proc_out = [''info depth 1 score cp 20 pv e2e4'', ''bestmove e2e4 ponder e7e5''],
            proc_accepts = None, proc_sent = []\<rparr> ''8/8/8/8/8/8/8/8 w - - 0 1''
     = Some (Inr (\<lparr>a_pvs = [], a_depth = 0\<rparr>,
        \<lparr>proc_out = [], proc_accepts = None,
         proc_sent = [''ucinewgame'' @ [CHR 0x0A],
                      ''position fen 8/8/8/8/8/8/8/8 w - - 0 1'' @ [CHR 0x0A],
                      ''go movetime 20000'' @ [CHR 0x0A]]\<rparr>))
   \<and> length (a_pvs \<lparr>a_pvs = [], a_depth = 0\<rparr>) \<le> nat MULTI_PV"
proof -
  let ?ps = "[\<lparr>p_depth = 10, p_pv_num = 3, p_moves = ''g1f3'', p_eval = 1 / 10, p_mate = None\<rparr>,
       \<lparr>p_depth = 12, p_pv_num = 1, p_moves = ''e2e4 e7e5'', p_eval = 9999, p_mate = Some 3\<rparr>,
       \<lparr>p_depth = 8, p_pv_num = 1, p_moves = ''d2d4'', p_eval = 1 / 4, p_mate = None\<rparr>]"
  let ?lines = "fst (foldl retain (Map.empty, 0) ?ps)"
  have l3: "?lines 3
     = Some \<lparr>p_depth = 10, p_pv_num = 3, p_moves = ''g1f3'', p_eval = 1 / 10, p_mate = None\<rparr>"
    by (simp add: retain_def)
  note t = emitted_variants [of ?lines
      "\<lparr>proc_out = [''info depth 1 score cp 20 pv e2e4'', ''bestmove e2e4 ponder e7e5''],
            proc_accepts = None, proc_sent = []\<rparr>" "''8/8/8/8/8/8/8/8 w - - 0 1''"
      "\<lparr>a_pvs = [], a_depth = 0\<rparr>"
      "\<lparr>proc_out = [], proc_accepts = None,
         proc_sent = [''ucinewgame'' @ [CHR 0x0A],
                      ''position fen 8/8/8/8/8/8/8/8 w - - 0 1'' @ [CHR 0x0A],
                      ''go movetime 20000'' @ [CHR 0x0A]]\<rparr>"
      0 ?ps 3
      "\<lparr>p_depth = 10, p_pv_num = 3, p_moves = ''g1f3'', p_eval = 1 / 10, p_mate = None\<rparr>"]
  have c: "collect_pvs ?lines
     = map (\<lambda>l. \<lparr>pv_moves = p_moves l, pv_eval = p_eval l, pv_mate = p_mate l\<rparr>)
         (List.map_filter ?lines [1, 2, 3])"
    using t by (rule conjunct1)
  have 1: "collect_pvs ?lines
     = [\<lparr>pv_moves = ''e2e4 e7e5'', pv_eval = 9999, pv_mate = Some 3\<rparr>,
        \<lparr>pv_moves = ''g1f3'', pv_eval = 1 / 10, pv_mate = None\<rparr>]"
    unfolding c by (simp add: retain_def List.map_filter_simps)
  have 5: "length (a_pvs \<lparr>a_pvs = [], a_depth = 0\<rparr>) \<le> nat MULTI_PV"
    using t analyze_example by blast
  have 6: "p_pv_num \<lparr>p_depth = 10, p_pv_num = 3, p_moves = ''g1f3'', p_eval = 1 / 10, p_mate = None\<rparr> = 3"
    using t l3 by blast
  show ?thesis using 1 l3 6 analyze_example 5 by blast
qed

section \<open>The reported depth\<close>




section \<open>A job that fails\<close>

lemma wait_for_lit:
  "wait_for \<lparr>proc_out = l # ls, proc_accepts = a, proc_sent = s\<rparr> target =
     (if strip l = target then Some \<lparr>proc_out = ls, proc_accepts = a, proc_sent = s\<rparr>
      else wait_for \<lparr>proc_out = ls, proc_accepts = a, proc_sent = s\<rparr> target)"
  by (subst wait_for.simps) simp

lemma analyze_dead_process:
  assumes "proc_accepts p = Some n" and "n < 3"
  shows "analyze p fen = Some (Inl BrokenPipeError)"
proof -
  have "n = 0 \<or> n = 1 \<or> n = 2" using assms(2) by arith
  then show ?thesis
    using assms(1) by (auto simp: analyze_def then_do_def send_def)
qed

lemma read_result_no_bestmove:
  assumes "\<forall>l\<in>set (proc_out q). \<not> startswith (strip l) ''bestmove''"
  shows "read_result q = None"
proof (cases "analyze_loop q (Map.empty, 0)")
  case None
  then show ?thesis by (simp add: read_result_def)
next
  case (Some r)
  obtain q' st' where "r = (q', st')" by (cases r)
  then show ?thesis using analyze_loop_result [OF refl, of q "(Map.empty, 0)" q' st'] Some assms by blast
qed

lemma analyze_no_bestmove:
  assumes "proc_accepts p = None" and "\<forall>l\<in>set (proc_out p). \<not> startswith (strip l) ''bestmove''"
  shows "analyze p fen = None"
proof -
  define p3 where "p3 = p\<lparr>proc_sent := proc_sent p @ [''ucinewgame'' @ [CHR 0x0A]]
        @ [(''position fen '' @ fen) @ [CHR 0x0A]]
        @ [(''go movetime '' @ str_of_int SEARCH_TIME_MS) @ [CHR 0x0A]]\<rparr>"
  have "analyze p fen = read_result p3"
    using assms(1) by (simp add: analyze_def then_do_def send_def p3_def)
  moreover have "proc_out p3 = proc_out p" by (simp add: p3_def)
  ultimately show ?thesis using read_result_no_bestmove [of p3] assms(2) by simp
qed

lemma start_example:
  "start \<lparr>proc_out = [''id name Stockfish'', ''uciok'', ''readyok''], proc_accepts = Some 5,
          proc_sent = []\<rparr>
   = Some (Inr \<lparr>proc_out = [], proc_accepts = Some 0,
        proc_sent = [''uci'' @ [CHR 0x0A],
                     ''setoption name UCI_Chess960 value true'' @ [CHR 0x0A],
                     ''setoption name Threads value 4'' @ [CHR 0x0A],
                     ''setoption name MultiPV value 3'' @ [CHR 0x0A],
                     ''isready'' @ [CHR 0x0A]]\<rparr>)"
  by (simp add: start_def then_do_def await_def send_def wait_for_lit strip_def is_space_def
      str_of_int_def THREADS_PER_ENGINE_def MULTI_PV_def)

text \<open>
  C4, as the code has it. Nothing in \<^verbatim>\<open>worker_thread\<close> catches an exception. If
  the engine is gone when a job begins, so that one of the three writes of \<^verbatim>\<open>analyze\<close>
  raises, the exception ends the worker: the store is as it was, without the id of the
  job, and the rest of the queue is left where it is. If the output of the engine has
  no terminal line, the worker never comes back from \<^verbatim>\<open>analyze\<close>.
\<close>

theorem job_failure_ends_worker:
  "(proc_accepts p = Some n \<and> n < 3 \<longrightarrow>
      worker_loop clock p ((i, fen) # q) st = Some (Raised BrokenPipeError q st))
   \<and> (proc_accepts p = None \<and> (\<forall>l\<in>set (proc_out p). \<not> startswith (strip l) ''bestmove'') \<longrightarrow>
      worker_loop clock p ((i, fen) # q) st = None)"
  by (simp add: analyze_dead_process analyze_no_bestmove)

theorem job_failure_ends_worker_witness:
  "worker_loop (\<lambda>i. ''2025-01-01T00:00:00'')
     \<lparr>proc_out = [], proc_accepts = Some 2, proc_sent = []\<rparr>
     [(IntKey 1, ''8/8/8/8/8/8/8/8 w - - 0 1''), (IntKey 2, ''8/8/8/8/8/8/8/8 b - - 0 1'')]
     \<lparr>st_results = [], st_progress = \<lparr>pg_done = 0, pg_last = []\<rparr>\<rparr>
   = Some (Raised BrokenPipeError [(IntKey 2, ''8/8/8/8/8/8/8/8 b - - 0 1'')]
       \<lparr>st_results = [], st_progress = \<lparr>pg_done = 0, pg_last = []\<rparr>\<rparr>)
   \<and> worker_loop (\<lambda>i. ''2025-01-01T00:00:00'')
     \<lparr>proc_out = [''info depth 1 score cp 20 pv e2e4''], proc_accepts = None, proc_sent = []\<rparr>
     [(IntKey 1, ''8/8/8/8/8/8/8/8 w - - 0 1''), (IntKey 2, ''8/8/8/8/8/8/8/8 b - - 0 1'')]
     \<lparr>st_results = [], st_progress = \<lparr>pg_done = 0, pg_last = []\<rparr>\<rparr>
   = None"
proof -
  have s: "\<forall>l\<in>set [''info depth 1 score cp 20 pv e2e4'']. \<not> startswith (strip l) ''bestmove''"
    by (simp add: strip_def is_space_def startswith_def)
  show ?thesis
    using s
      job_failure_ends_worker
        [where p = "\<lparr>proc_out = [], proc_accepts = Some 2, proc_sent = []\<rparr>" and n = 2
           and clock = "\<lambda>i. ''2025-01-01T00:00:00''" and i = "IntKey 1"
           and fen = "''8/8/8/8/8/8/8/8 w - - 0 1''"
           and q = "[(IntKey 2, ''8/8/8/8/8/8/8/8 b - - 0 1'')]"
           and st = "\<lparr>st_results = [], st_progress = \<lparr>pg_done = 0, pg_last = []\<rparr>\<rparr>"]
      job_failure_ends_worker
        [where p = "\<lparr>proc_out = [''info depth 1 score cp 20 pv e2e4''], proc_accepts = None,
                     proc_sent = []\<rparr>"
           and clock = "\<lambda>i. ''2025-01-01T00:00:00''" and i = "IntKey 1"
           and fen = "''8/8/8/8/8/8/8/8 w - - 0 1''"
           and q = "[(IntKey 2, ''8/8/8/8/8/8/8/8 b - - 0 1'')]"
           and st = "\<lparr>st_results = [], st_progress = \<lparr>pg_done = 0, pg_last = []\<rparr>\<rparr>"]
    by (simp del: worker_loop.simps)
qed

text \<open>
  C4, as the claim has it, fails: the engine answers the handshake and is gone
  afterwards; the worker takes job 1, the write raises, and the thread ends with job 2
  still in the queue.
\<close>

theorem crashed_engine_counterexample:
  "worker_thread (\<lambda>i. ''2025-01-01T00:00:00'')
     \<lparr>proc_out = [''id name Stockfish'', ''uciok'', ''readyok''], proc_accepts = Some 5,
      proc_sent = []\<rparr>
     [(IntKey 1, ''bnrqkrnb/pppppppp/8/8/8/8/PPPPPPPP/BNRQKRNB w KQkq - 0 1''),
      (IntKey 2, ''nbrqkrbn/pppppppp/8/8/8/8/PPPPPPPP/NBRQKRBN w KQkq - 0 1'')]
     \<lparr>st_results = [], st_progress = \<lparr>pg_done = 0, pg_last = []\<rparr>\<rparr>
   = Some (Raised BrokenPipeError
       [(IntKey 2, ''nbrqkrbn/pppppppp/8/8/8/8/PPPPPPPP/NBRQKRBN w KQkq - 0 1'')]
       \<lparr>st_results = [], st_progress = \<lparr>pg_done = 0, pg_last = []\<rparr>\<rparr>)"
  by (simp add: worker_thread_def start_example analyze_def then_do_def send_def)

section \<open>Filling the queue\<close>

lemma populate_loop:
  "foldl (\<lambda>task_queue pos.
              if \<not> has_key rs (StrKey (key_str (pos_id pos))) \<and> \<not> has_key rs (pos_id pos)
              then task_queue @ [(pos_id pos, pos_fen pos)]
              else task_queue) acc positions
   = acc @ map (\<lambda>pos. (pos_id pos, pos_fen pos))
       (filter (\<lambda>pos. \<not> has_key rs (StrKey (key_str (pos_id pos))) \<and> \<not> has_key rs (pos_id pos))
          positions)"
  by (induction positions arbitrary: acc) simp_all

lemma populate_queue_filter:
  "populate_queue positions rs
   = map (\<lambda>pos. (pos_id pos, pos_fen pos))
       (filter (\<lambda>pos. \<not> has_key rs (StrKey (key_str (pos_id pos))) \<and> \<not> has_key rs (pos_id pos))
          positions)"
  by (simp add: populate_queue_def populate_loop)

lemma populate_queue_ids:
  "map fst (populate_queue positions rs)
   = filter (\<lambda>i. \<not> has_key rs (StrKey (key_str i)) \<and> \<not> has_key rs i) (map pos_id positions)"
  by (simp add: populate_queue_filter filter_map comp_def)

lemma count_list_distinct: "distinct xs \<Longrightarrow> count_list xs x = (if x \<in> set xs then 1 else 0)"
  by (induction xs) auto

lemma has_key_iff: "has_key rs k \<longleftrightarrow> k \<in> fst ` set rs"
  by (simp add: has_key_def map_of_eq_None_iff)

text \<open>
  C6. For a position of the input list, its id is in the queue exactly if neither
  \<^verbatim>\<open>str(id)\<close> nor the id is a key of the loaded results; with distinct ids it is there
  once. For results read from JSON, whose keys are all strings, this is: exactly if
  \<^verbatim>\<open>str(id)\<close> is not a key.
\<close>

theorem queue_holds_unfinished_ids_once:
  assumes "pos \<in> set positions"
  shows "(pos_id pos \<in> fst ` set (populate_queue positions rs)
            \<longleftrightarrow> \<not> (has_key rs (StrKey (key_str (pos_id pos))) \<or> has_key rs (pos_id pos)))
       \<and> (distinct (map pos_id positions) \<longrightarrow>
            count_list (map fst (populate_queue positions rs)) (pos_id pos)
              = (if has_key rs (StrKey (key_str (pos_id pos))) \<or> has_key rs (pos_id pos)
                 then 0 else 1))
       \<and> ((\<forall>k\<in>fst ` set rs. \<exists>s. k = StrKey s) \<longrightarrow>
            (pos_id pos \<in> fst ` set (populate_queue positions rs)
               \<longleftrightarrow> StrKey (key_str (pos_id pos)) \<notin> fst ` set rs))"
proof -
  let ?i = "pos_id pos"
  let ?keep = "\<lambda>i. \<not> has_key rs (StrKey (key_str i)) \<and> \<not> has_key rs i"
  have ids: "map fst (populate_queue positions rs) = filter ?keep (map pos_id positions)"
    by (rule populate_queue_ids)
  have mem: "?i \<in> set (map pos_id positions)" using assms by simp
  have set_eq: "fst ` set (populate_queue positions rs) = set (filter ?keep (map pos_id positions))"
    using ids by (metis set_map)
  have 1: "?i \<in> fst ` set (populate_queue positions rs) \<longleftrightarrow> ?keep ?i"
    using mem by (simp add: set_eq)
  have 2: "count_list (map fst (populate_queue positions rs)) ?i = (if ?keep ?i then 1 else 0)"
    if "distinct (map pos_id positions)"
  proof -
    have "distinct (filter ?keep (map pos_id positions))" using that by (rule distinct_filter)
    then show ?thesis using mem by (simp add: ids count_list_distinct)
  qed
  have 3: "?keep ?i \<longleftrightarrow> StrKey (key_str ?i) \<notin> fst ` set rs"
    if "\<forall>k\<in>fst ` set rs. \<exists>s. k = StrKey s"
  proof (cases ?i)
    case (IntKey n)
    then have "?i \<notin> fst ` set rs" using that by auto
    then show ?thesis by (simp add: has_key_iff)
  next
    case (StrKey s)
    then show ?thesis by (simp add: has_key_iff)
  qed
  show ?thesis using 1 2 3 by auto
qed

theorem queue_holds_unfinished_ids_once_witness:
  "\<lparr>pos_id = IntKey 2, pos_fen = ''b''\<rparr>
     \<in> set [\<lparr>pos_id = IntKey 1, pos_fen = ''a''\<rparr>, \<lparr>pos_id = IntKey 2, pos_fen = ''b''\<rparr>]
   \<and> IntKey 2 \<in> fst ` set (populate_queue
        [\<lparr>pos_id = IntKey 1, pos_fen = ''a''\<rparr>, \<lparr>pos_id = IntKey 2, pos_fen = ''b''\<rparr>]
        [(StrKey ''1'', \<lparr>r_fen = ''a'', r_depth = 0, r_pvs = [], r_analyzedAt = ''t''\<rparr>)])
   \<and> count_list (map fst (populate_queue
        [\<lparr>pos_id = IntKey 1, pos_fen = ''a''\<rparr>, \<lparr>pos_id = IntKey 2, pos_fen = ''b''\<rparr>]
        [(StrKey ''1'', \<lparr>r_fen = ''a'', r_depth = 0, r_pvs = [], r_analyzedAt = ''t''\<rparr>)]))
        (IntKey 2) = 1"
proof -
  let ?ps = "[\<lparr>pos_id = IntKey 1, pos_fen = ''a''\<rparr>, \<lparr>pos_id = IntKey 2, pos_fen = ''b''\<rparr>]"
  let ?rs = "[(StrKey ''1'', \<lparr>r_fen = ''a'', r_depth = 0, r_pvs = [], r_analyzedAt = ''t''\<rparr>)]"
  have h: "\<lparr>pos_id = IntKey 2, pos_fen = ''b''\<rparr> \<in> set ?ps" by simp
  have k: "\<not> (has_key ?rs (StrKey (key_str (IntKey 2))) \<or> has_key ?rs (IntKey 2))"
    by (simp add: has_key_def str_of_int_def)
  have d: "distinct (map pos_id ?ps)" by simp
  show ?thesis
    using h k d queue_holds_unfinished_ids_once [OF h, of ?rs] by simp
qed

section \<open>A job with no parsed line\<close>

lemma json_reload_loop:
  "fst ` set (foldl (\<lambda>acc (k, v). AList.update (StrKey (key_str k)) v acc) acc rs)
   = fst ` set acc \<union> (\<lambda>k. StrKey (key_str k)) ` fst ` set rs"
proof (induction rs arbitrary: acc)
  case Nil
  then show ?case by simp
next
  case (Cons kv rs)
  obtain k v where kv: "kv = (k, v)" by (cases kv)
  have "fst ` set (AList.update (StrKey (key_str k)) v acc) = insert (StrKey (key_str k)) (fst ` set acc)"
    by (simp add: dom_update)
  then show ?case using Cons.IH [of "AList.update (StrKey (key_str k)) v acc"] kv by auto
qed

lemma json_reload_keys: "fst ` set (json_reload rs) = (\<lambda>k. StrKey (key_str k)) ` fst ` set rs"
  by (simp add: json_reload_def json_reload_loop)

lemma record_result_lookup:
  "map_of (st_results (record_result now i fen a st)) i
   = Some \<lparr>r_fen = fen, r_depth = a_depth a, r_pvs = a_pvs a, r_analyzedAt = now\<rparr>"
  by (simp add: record_result_def update_conv)

lemma record_result_keys:
  "fst ` set (st_results (record_result now i fen a st)) = insert i (fst ` set (st_results st))"
  by (simp add: record_result_def dom_update)

lemma record_result_other:
  "k \<noteq> i \<Longrightarrow> map_of (st_results (record_result now i fen a st)) k = map_of (st_results st) k"
  by (simp add: record_result_def update_conv')

text \<open>
  A worker never removes a key from the results, and the value under a key that is
  not the id of a job still in the queue stays as it is.
\<close>

lemma worker_loop_keeps:
  "worker_loop clock p q st = Some e \<Longrightarrow>
   fst ` set (st_results st) \<subseteq> fst ` set (st_results (end_store e))
   \<and> (k \<notin> fst ` set q \<longrightarrow> map_of (st_results (end_store e)) k = map_of (st_results st) k)"
proof (induction q arbitrary: p st)
  case Nil
  then show ?case by (auto split: sum.splits)
next
  case (Cons job q)
  obtain j fen where job: "job = (j, fen)" by (cases job)
  show ?case
  proof (cases "analyze p fen")
    case None
    then show ?thesis using Cons.prems job by simp
  next
    case (Some r)
    show ?thesis
    proof (cases r)
      case (Inl err)
      then show ?thesis using Cons.prems job Some by auto
    next
      case (Inr res)
      obtain a p' where res: "res = (a, p')" by (cases res)
      let ?st = "record_result (clock j) j fen a st"
      have run: "worker_loop clock p' q ?st = Some e"
        using Cons.prems job Some Inr res by simp
      have ih: "fst ` set (st_results ?st) \<subseteq> fst ` set (st_results (end_store e))
        \<and> (k \<notin> fst ` set q \<longrightarrow> map_of (st_results (end_store e)) k = map_of (st_results ?st) k)"
        using Cons.IH [OF run] .
      have "fst ` set (st_results st) \<subseteq> fst ` set (st_results (end_store e))"
        using ih record_result_keys [of "clock j" j fen a st] by auto
      moreover have "map_of (st_results (end_store e)) k = map_of (st_results st) k"
        if "k \<notin> fst ` set (job # q)"
      proof -
        have "k \<noteq> j" "k \<notin> fst ` set q" using that job by auto
        then show ?thesis using ih record_result_other [of k j] by simp
      qed
      ultimately show ?thesis by blast
    qed
  qed
qed

lemma reload_excludes:
  assumes "i \<in> fst ` set rs"
  shows "i \<notin> fst ` set (populate_queue positions (json_reload rs))"
proof -
  have "StrKey (key_str i) \<in> fst ` set (json_reload rs)"
    using assms by (auto simp: json_reload_keys)
  then have "has_key (json_reload rs) (StrKey (key_str i))" by (simp add: has_key_iff)
  then have "i \<notin> set (map fst (populate_queue positions (json_reload rs)))"
    unfolding populate_queue_ids by simp
  then show ?thesis by simp
qed

lemma parse_info_unscored:
  assumes "\<not> py_in '' score cp '' line" and "\<not> py_in '' score mate '' line"
  shows "parse_info line = None"
  using assms by (simp add: parse_info_def split: option.splits)

lemma worker_example:
  "worker_loop (\<lambda>i. ''2025-01-01T00:00:00'')
     \<lparr>proc_out = [''info depth 5 seldepth 6 nodes 100 pv e2e4'', ''bestmove e2e4 ponder e7e5''],
      proc_accepts = None, proc_sent = []\<rparr>
     [(IntKey 7, ''8/8/8/8/8/8/8/8 w - - 0 1'')]
     \<lparr>st_results = [], st_progress = \<lparr>pg_done = 0, pg_last = []\<rparr>\<rparr>
   = Some (Returned []
       \<lparr>st_results = [(IntKey 7, \<lparr>r_fen = ''8/8/8/8/8/8/8/8 w - - 0 1'', r_depth = 0, r_pvs = [],
                                  r_analyzedAt = ''2025-01-01T00:00:00''\<rparr>)],
        st_progress = \<lparr>pg_done = 1, pg_last = ''#7 @ d0''\<rparr>\<rparr>)"
proof -
  have u: "parse_info ''info depth 5 seldepth 6 nodes 100 pv e2e4'' = None"
    by (rule parse_info_unscored) (simp_all add: startswith_def)
  have a: "analyze
     \<lparr>proc_out = [''info depth 5 seldepth 6 nodes 100 pv e2e4'', ''bestmove e2e4 ponder e7e5''],
      proc_accepts = None, proc_sent = []\<rparr> ''8/8/8/8/8/8/8/8 w - - 0 1''
     = Some (Inr (\<lparr>a_pvs = [], a_depth = 0\<rparr>,
        \<lparr>proc_out = [], proc_accepts = None,
         proc_sent = [''ucinewgame'' @ [CHR 0x0A],
                      ''position fen 8/8/8/8/8/8/8/8 w - - 0 1'' @ [CHR 0x0A],
                      ''go movetime 20000'' @ [CHR 0x0A]]\<rparr>))"
    by (simp add: analyze_def then_do_def send_def read_result_def analyze_loop_lit
        str_20000 strip_def is_space_def startswith_def analyze_step_def u
        collect_pvs_def ranks)
  show ?thesis
    by (simp add: a quit_def send_def record_result_def str_of_int_def)
qed

text \<open>
  C10. The engine takes the three commands, and the terminal line comes with no line
  parsed before it. Then \<^verbatim>\<open>analyze\<close> returns, with no variants and depth 0, and the
  worker stores that result under the id of the job and goes on. However the thread
  ends, the results it leaves hold the id, with that result unless a later job of the
  queue has the same id; and whenever results that hold the keys of these are saved and
  loaded again, the id is not put in the queue.
\<close>

theorem unparsed_job_recorded_and_not_requeued:
  assumes "\<forall>n. proc_accepts p = Some n \<longrightarrow> 3 \<le> n"
    and "\<exists>l\<in>set (proc_out p). startswith (strip l) ''bestmove''"
    and "parsed_lines (observed (proc_out p)) = []"
  shows "\<exists>p'. analyze p fen = Some (Inr (\<lparr>a_pvs = [], a_depth = 0\<rparr>, p'))
       \<and> worker_loop clock p ((i, fen) # q) st
           = worker_loop clock p' q (record_result (clock i) i fen \<lparr>a_pvs = [], a_depth = 0\<rparr> st)
       \<and> map_of (st_results (record_result (clock i) i fen \<lparr>a_pvs = [], a_depth = 0\<rparr> st)) i
           = Some \<lparr>r_fen = fen, r_depth = 0, r_pvs = [], r_analyzedAt = clock i\<rparr>
       \<and> (\<forall>e. worker_loop clock p ((i, fen) # q) st = Some e \<longrightarrow>
             has_key (st_results (end_store e)) i
             \<and> (i \<notin> fst ` set q \<longrightarrow>
                  map_of (st_results (end_store e)) i
                    = Some \<lparr>r_fen = fen, r_depth = 0, r_pvs = [], r_analyzedAt = clock i\<rparr>)
             \<and> (\<forall>rs positions. fst ` set (st_results (end_store e)) \<subseteq> fst ` set rs \<longrightarrow>
                  i \<notin> fst ` set (populate_queue positions (json_reload rs))))"
proof -
  obtain a p' where an: "analyze p fen = Some (Inr (a, p'))"
    using analyze_returns [OF assms(1,2)] by fastforce
  have a: "a = \<lparr>a_pvs = [], a_depth = 0\<rparr>"
    using analyze_result [OF an] assms(3) by (simp add: collect_pvs_empty)
  let ?st = "record_result (clock i) i fen \<lparr>a_pvs = [], a_depth = 0\<rparr> st"
  have w: "worker_loop clock p ((i, fen) # q) st = worker_loop clock p' q ?st"
    using an a by simp
  have r: "map_of (st_results ?st) i
           = Some \<lparr>r_fen = fen, r_depth = 0, r_pvs = [], r_analyzedAt = clock i\<rparr>"
    by (simp add: record_result_lookup)
  have e: "has_key (st_results (end_store e)) i
             \<and> (i \<notin> fst ` set q \<longrightarrow>
                  map_of (st_results (end_store e)) i
                    = Some \<lparr>r_fen = fen, r_depth = 0, r_pvs = [], r_analyzedAt = clock i\<rparr>)
             \<and> (\<forall>rs positions. fst ` set (st_results (end_store e)) \<subseteq> fst ` set rs \<longrightarrow>
                  i \<notin> fst ` set (populate_queue positions (json_reload rs)))"
    if "worker_loop clock p ((i, fen) # q) st = Some e" for e
  proof -
    have run: "worker_loop clock p' q ?st = Some e" using that w by simp
    have keeps: "fst ` set (st_results ?st) \<subseteq> fst ` set (st_results (end_store e))
      \<and> (i \<notin> fst ` set q \<longrightarrow> map_of (st_results (end_store e)) i = map_of (st_results ?st) i)"
      using worker_loop_keeps [OF run] .
    have mem: "i \<in> fst ` set (st_results (end_store e))"
      using keeps record_result_keys [of "clock i" i fen "\<lparr>a_pvs = [], a_depth = 0\<rparr>" st] by auto
    have 1: "has_key (st_results (end_store e)) i" using mem by (simp add: has_key_iff)
    have 2: "i \<notin> fst ` set q \<longrightarrow> map_of (st_results (end_store e)) i
                    = Some \<lparr>r_fen = fen, r_depth = 0, r_pvs = [], r_analyzedAt = clock i\<rparr>"
      using keeps r by simp
    have 3: "i \<notin> fst ` set (populate_queue positions (json_reload rs))"
      if "fst ` set (st_results (end_store e)) \<subseteq> fst ` set rs" for rs positions
      using reload_excludes [of i rs positions] mem that by blast
    show ?thesis using 1 2 3 by blast
  qed
  show ?thesis using an a w r e by blast
qed

theorem unparsed_job_recorded_and_not_requeued_witness:
  "startswith (strip ''bestmove e2e4 ponder e7e5'') ''bestmove''
   \<and> parsed_lines (observed
         [''info depth 5 seldepth 6 nodes 100 pv e2e4'', ''bestmove e2e4 ponder e7e5'']) = []
   \<and> worker_loop (\<lambda>i. ''2025-01-01T00:00:00'')
        \<lparr>proc_out = [''info depth 5 seldepth 6 nodes 100 pv e2e4'', ''bestmove e2e4 ponder e7e5''],
         proc_accepts = None, proc_sent = []\<rparr>
        [(IntKey 7, ''8/8/8/8/8/8/8/8 w - - 0 1'')]
        \<lparr>st_results = [], st_progress = \<lparr>pg_done = 0, pg_last = []\<rparr>\<rparr>
      = Some (Returned []
          \<lparr>st_results = [(IntKey 7, \<lparr>r_fen = ''8/8/8/8/8/8/8/8 w - - 0 1'', r_depth = 0,
                                     r_pvs = [], r_analyzedAt = ''2025-01-01T00:00:00''\<rparr>)],
           st_progress = \<lparr>pg_done = 1, pg_last = ''#7 @ d0''\<rparr>\<rparr>)
   \<and> has_key [(IntKey 7, \<lparr>r_fen = ''8/8/8/8/8/8/8/8 w - - 0 1'', r_depth = 0,
                            r_pvs = [], r_analyzedAt = ''2025-01-01T00:00:00''\<rparr>)] (IntKey 7)
   \<and> IntKey 7 \<notin> fst ` set (populate_queue
         [\<lparr>pos_id = IntKey 7, pos_fen = ''8/8/8/8/8/8/8/8 w - - 0 1''\<rparr>,
          \<lparr>pos_id = IntKey 8, pos_fen = ''8/8/8/8/8/8/8/8 b - - 0 1''\<rparr>]
         (json_reload [(IntKey 7, \<lparr>r_fen = ''8/8/8/8/8/8/8/8 w - - 0 1'', r_depth = 0,
                                   r_pvs = [], r_analyzedAt = ''2025-01-01T00:00:00''\<rparr>)]))"
proof -
  let ?out = "[''info depth 5 seldepth 6 nodes 100 pv e2e4'', ''bestmove e2e4 ponder e7e5'']"
  let ?p = "\<lparr>proc_out = ?out, proc_accepts = None, proc_sent = []\<rparr>"
  let ?st = "\<lparr>st_results = [], st_progress = \<lparr>pg_done = 0, pg_last = []\<rparr>\<rparr>"
  let ?rs = "[(IntKey 7, \<lparr>r_fen = ''8/8/8/8/8/8/8/8 w - - 0 1'', r_depth = 0,
                          r_pvs = [], r_analyzedAt = ''2025-01-01T00:00:00''\<rparr>)]"
  let ?e = "Returned [] \<lparr>st_results = ?rs, st_progress = \<lparr>pg_done = 1, pg_last = ''#7 @ d0''\<rparr>\<rparr>"
  have b: "startswith (strip ''bestmove e2e4 ponder e7e5'') ''bestmove''"
    by (simp add: strip_def is_space_def startswith_def)
  have u: "parse_info ''info depth 5 seldepth 6 nodes 100 pv e2e4'' = None"
    by (rule parse_info_unscored) (simp_all add: startswith_def)
  have h1: "\<forall>n. proc_accepts ?p = Some n \<longrightarrow> 3 \<le> n" by simp
  have h2: "\<exists>l\<in>set (proc_out ?p). startswith (strip l) ''bestmove''"
    using b by simp
  have h3: "parsed_lines (observed (proc_out ?p)) = []"
    by (simp add: observed_def parsed_lines_def List.map_filter_simps strip_def is_space_def
        startswith_def u)
  note t = unparsed_job_recorded_and_not_requeued [OF h1 h2 h3,
      of "''8/8/8/8/8/8/8/8 w - - 0 1''" "\<lambda>i. ''2025-01-01T00:00:00''" "IntKey 7" "[]" ?st]
  have w: "worker_loop (\<lambda>i. ''2025-01-01T00:00:00'') ?p [(IntKey 7, ''8/8/8/8/8/8/8/8 w - - 0 1'')] ?st
      = Some ?e"
    by (rule worker_example)
  have k: "has_key (st_results (end_store ?e)) (IntKey 7)
     \<and> (\<forall>rs positions. fst ` set (st_results (end_store ?e)) \<subseteq> fst ` set rs \<longrightarrow>
                  IntKey 7 \<notin> fst ` set (populate_queue positions (json_reload rs)))"
    using t w by blast
  have 4: "has_key ?rs (IntKey 7)" using k by simp
  have 5: "IntKey 7 \<notin> fst ` set (populate_queue
         [\<lparr>pos_id = IntKey 7, pos_fen = ''8/8/8/8/8/8/8/8 w - - 0 1''\<rparr>,
          \<lparr>pos_id = IntKey 8, pos_fen = ''8/8/8/8/8/8/8/8 b - - 0 1''\<rparr>]
         (json_reload ?rs))"
    using k by simp
  have 2: "parsed_lines (observed ?out) = []" using h3 by simp
  show ?thesis using b 2 w 4 5 by blast
qed

section \<open>Saving the results\<close>

lemma dump_states_length: "length (dump_states fs path chunks) = length chunks + 1"
  by (induction chunks arbitrary: fs) simp_all

lemma dump_states_nth:
  "i \<le> length chunks \<Longrightarrow>
   dump_states (fs(path \<mapsto> c)) path chunks ! i = fs(path \<mapsto> c @ concat (take i chunks))"
proof (induction chunks arbitrary: c i)
  case Nil
  then show ?case by simp
next
  case (Cons chunk chunks)
  show ?case
  proof (cases i)
    case 0
    then show ?thesis by simp
  next
    case (Suc j)
    then have "j \<le> length chunks" using Cons.prems by simp
    then have ih: "dump_states (fs(path \<mapsto> c @ chunk)) path chunks ! j
        = fs(path \<mapsto> (c @ chunk) @ concat (take j chunks))"
      by (rule Cons.IH)
    have w: "write_chunk (fs(path \<mapsto> c)) path chunk = fs(path \<mapsto> c @ chunk)"
      by (simp add: write_chunk_def)
    have a: "dump_states (fs(path \<mapsto> c)) path (chunk # chunks) ! Suc j
        = dump_states (fs(path \<mapsto> c @ chunk)) path chunks ! j"
      by (simp only: dump_states.simps nth_Cons_Suc w)
    have b: "c @ concat (take (Suc j) (chunk # chunks)) = (c @ chunk) @ concat (take j chunks)"
      by simp
    show ?thesis unfolding Suc a b by (rule ih)
  qed
qed

text \<open>
  C1, as the code has it. A save has \<open>length chunks + 2\<close> disk states. State 0 is
  the disk before; state \<open>i > 0\<close> differs from it only at the output path, which holds
  the first \<open>i - 1\<close> pieces of the new text: empty after \<^verbatim>\<open>open\<close>, the whole new text
  at the end. No other path is written, so there is no temporary file.
\<close>

theorem save_overwrites_in_place:
  assumes "i \<le> length chunks + 1"
  shows "length (save_states fs path chunks) = length chunks + 2
       \<and> save_states fs path chunks ! i
           = (if i = 0 then fs else fs(path \<mapsto> concat (take (i - 1) chunks)))"
proof -
  have "save_states fs path chunks ! i = fs(path \<mapsto> concat (take (i - 1) chunks))" if nz: "i \<noteq> 0"
  proof -
    obtain j where j: "i = Suc j" using nz by (cases i) auto
    then have "j \<le> length chunks" using assms by simp
    then have "dump_states (fs(path \<mapsto> [])) path chunks ! j = fs(path \<mapsto> [] @ concat (take j chunks))"
      by (rule dump_states_nth)
    then show ?thesis using j by (simp add: save_states_def open_w_def)
  qed
  then show ?thesis by (simp add: save_states_def dump_states_length)
qed

theorem save_overwrites_in_place_witness:
  "(2::nat) \<le> length [''{'', ''x'', ''}''] + 1
   \<and> length (save_states [''evals.json'' \<mapsto> ''{}''] ''evals.json'' [''{'', ''x'', ''}'']) = 5
   \<and> save_states [''evals.json'' \<mapsto> ''{}''] ''evals.json'' [''{'', ''x'', ''}''] ! 2
       = [''evals.json'' \<mapsto> ''{''] 
   \<and> save_states [''evals.json'' \<mapsto> ''{}''] ''evals.json'' [''{'', ''x'', ''}''] ! 4
       = [''evals.json'' \<mapsto> ''{x}'']"
  using save_overwrites_in_place [of 2 "[''{'', ''x'', ''}'']" "[''evals.json'' \<mapsto> ''{}'']" "''evals.json''"]
    save_overwrites_in_place [of 4 "[''{'', ''x'', ''}'']" "[''evals.json'' \<mapsto> ''{}'']" "''evals.json''"]
  by simp

text \<open>
  C1, as the claim has it, fails: a crash after the first piece leaves a file that is
  neither the old text \<^verbatim>\<open>{}\<close> nor the new text \<^verbatim>\<open>{x}\<close>.
\<close>

theorem save_crash_counterexample:
  "(save_states [''evals.json'' \<mapsto> ''{}''] ''evals.json'' [''{'', ''x'', ''}''] ! 2) ''evals.json''
     = Some ''{''
   \<and> (save_states [''evals.json'' \<mapsto> ''{}''] ''evals.json'' [''{'', ''x'', ''}''] ! 2) ''evals.json''
     \<noteq> [''evals.json'' \<mapsto> ''{}''] ''evals.json''
   \<and> (save_states [''evals.json'' \<mapsto> ''{}''] ''evals.json'' [''{'', ''x'', ''}''] ! 2) ''evals.json''
     \<noteq> Some (concat [''{'', ''x'', ''}''])"
  by (simp add: save_states_def open_w_def write_chunk_def)

end
